theory Spec2Isabelle
  imports Main "HOL-Library.Word"
begin

section \<open>Strings, runes and unsigned integers\<close>

text \<open>
  A Go string is a sequence of bytes: \<open>string\<close>, a \<open>char list\<close>. The \<open>regexp\<close> package
  reads its input rune by rune: a byte below 0x80 is a rune of width 1, and any other
  position is decoded as UTF-8 (\<open>utf8.DecodeRuneInString\<close>), where an invalid or truncated
  encoding is the replacement rune of width 1. The five patterns of the parser name ASCII
  characters only, so a decoded rune is kept as the ASCII character it is, or as
  \<open>Wide\<close> for every rune from U+0080 on (the replacement rune included), together with the
  number of bytes it occupies.
\<close>

datatype rune = Ascii char | Wide

definition byte :: "char \<Rightarrow> nat" where
  "byte c = of_char c"

definition inRange :: "nat \<Rightarrow> nat \<Rightarrow> char list \<Rightarrow> bool" where
  \<comment> \<open>the first byte of the list exists and lies in \<open>lo..hi\<close>\<close>
  "inRange lo hi s = (case s of [] \<Rightarrow> False | c # _ \<Rightarrow> lo \<le> byte c \<and> byte c \<le> hi)"

definition runeWidth :: "char \<Rightarrow> char list \<Rightarrow> nat" where
  \<comment> \<open>width of the rune that starts with byte \<open>c0\<close> and is followed by \<open>rest\<close>:
      the table \<open>first\<close> and the accept ranges of package \<open>utf8\<close>\<close>
  "runeWidth c0 rest =
     (let b0 = byte c0 in
      if b0 < 0x80 then 1
      else if b0 < 0xC2 \<or> 0xF4 < b0 then 1
      else
        let sz = (if b0 < 0xE0 then 2 else if b0 < 0xF0 then 3 else (4::nat));
            lo = (if b0 = 0xE0 then 0xA0 else if b0 = 0xF0 then 0x90 else 0x80);
            hi = (if b0 = 0xED then 0x9F else if b0 = 0xF4 then 0x8F else 0xBF)
        in if length rest < sz - 1 then 1
           else if \<not> inRange lo hi rest then 1
           else if sz \<le> 2 then 2
           else if \<not> inRange 0x80 0xBF (drop 1 rest) then 1
           else if sz \<le> 3 then 3
           else if \<not> inRange 0x80 0xBF (drop 2 rest) then 1
           else 4)"

definition decodeRune :: "char \<Rightarrow> char list \<Rightarrow> rune \<times> nat" where
  \<comment> \<open>\<open>inputString.step\<close>: the rune at the head of a non-empty input and its width\<close>
  "decodeRune c0 rest = (if byte c0 < 0x80 then (Ascii c0, 1) else (Wide, runeWidth c0 rest))"

type_synonym uint = "64 word"

definition undetermined :: uint where
  \<comment> \<open>\<open>^uint(0)\<close> on a platform whose \<open>uint\<close> has 64 bits\<close>
  "undetermined = - 1"

definition digits :: string where
  "digits = ''0123456789''"

definition isDigit :: "char \<Rightarrow> bool" where
  "isDigit c = (c \<in> set digits)"

definition digitVal :: "char \<Rightarrow> nat" where
  "digitVal c = byte c - byte (CHR ''0'')"

definition decimalValue :: "string \<Rightarrow> nat" where
  "decimalValue s = foldl (\<lambda>a c. 10 * a + digitVal c) 0 s"

definition parseUint :: "string \<Rightarrow> uint option" where
  \<comment> \<open>\<open>strconv.ParseUint(s, 10, 64)\<close> followed by \<open>uint(r)\<close>; \<open>None\<close> is a non-nil error:
      a syntax error on the empty string or on a character that is no decimal digit, a
      range error on a value of \<open>2^64\<close> or more\<close>
  "parseUint s =
     (if s = [] \<or> \<not> list_all isDigit s then None
      else if 2 ^ 64 \<le> decimalValue s then None
      else Some (of_nat (decimalValue s)))"

section \<open>Regular expressions with leftmost-first matching\<close>

text \<open>
  The syntax the patterns use: a character class (a literal character is the class of that
  one character), the anchors \<open>^\<close> and \<open>$\<close> (without the \<open>m\<close> flag: start and end of the
  text), concatenation, alternation, \<open>?\<close> and \<open>+\<close>, each greedy or not, and numbered
  capture groups. \<open>x{2}\<close> is \<open>xx\<close>.
\<close>

datatype re =
    Eps
  | Cls bool string
  | Bol
  | Eol
  | Cat re re
  | Alt re re
  | Quest bool re
  | Plus bool re
  | Group nat re

definition inCls :: "bool \<Rightarrow> string \<Rightarrow> rune \<Rightarrow> bool" where
  \<comment> \<open>\<open>negated\<close> is the leading \<open>^\<close> of a bracket expression; a negated class matches
      every other rune, newline included\<close>
  "inCls negated cs r = (case r of Ascii c \<Rightarrow> (c \<in> set cs) \<noteq> negated | Wide \<Rightarrow> negated)"

type_synonym caps = "(nat \<times> string) list"

text \<open>
  A thread of the matcher: the number of bytes before the current position, the input
  from the current position on, and the captures made so far (newest first).
\<close>

type_synonym thread = "nat \<times> string \<times> caps"

definition remaining :: "thread \<Rightarrow> nat" where
  "remaining t = length (fst (snd t))"

text \<open>
  \<open>ms r t\<close> lists every way \<open>r\<close> can match at thread \<open>t\<close>, in the order in which a
  backtracking matcher tries them; the package returns the match such a matcher
  finds first, so the head of the list is the one that counts. \<open>loop f greedy\<close> repeats
  \<open>f\<close> once or more: after each round a greedy repetition tries another round before it
  stops, a lazy one stops before it tries another round. A round that consumes nothing
  ends the repetition (the bodies repeated in the patterns below are single classes, which
  always consume).
\<close>

function loop :: "(thread \<Rightarrow> thread list) \<Rightarrow> bool \<Rightarrow> thread \<Rightarrow> thread list" where
  "loop f greedy t =
     concat (map (\<lambda>t'. if remaining t' < remaining t
                        then (if greedy then loop f greedy t' @ [t'] else t' # loop f greedy t')
                        else [t'])
                 (f t))"
  by pat_completeness auto
termination
  by (relation "measure (\<lambda>(f, greedy, t). remaining t)") auto

declare loop.simps [simp del]

primrec ms :: "re \<Rightarrow> thread \<Rightarrow> thread list" where
  "ms Eps = (\<lambda>t. [t])"
| "ms (Cls negated cs) =
     (\<lambda>(n, s, c). case s of [] \<Rightarrow> []
        | c0 # rest \<Rightarrow>
            (case decodeRune c0 rest of (r, w) \<Rightarrow>
               if inCls negated cs r then [(n + w, drop w s, c)] else []))"
| "ms Bol = (\<lambda>(n, s, c). if n = 0 then [(n, s, c)] else [])"
| "ms Eol = (\<lambda>(n, s, c). if s = [] then [(n, s, c)] else [])"
| "ms (Cat a b) = (\<lambda>t. concat (map (ms b) (ms a t)))"
| "ms (Alt a b) = (\<lambda>t. ms a t @ ms b t)"
| "ms (Quest greedy a) = (\<lambda>t. if greedy then ms a t @ [t] else t # ms a t)"
| "ms (Plus greedy a) = loop (ms a) greedy"
| "ms (Group i a) =
     (\<lambda>(n, s, c). map (\<lambda>(n', s', c'). (n', s', (i, take (n' - n) s) # c')) (ms a (n, s, c)))"

declare ms.simps [simp del]

fun lit :: "string \<Rightarrow> re" where
  "lit [] = Eps"
| "lit [c] = Cls False [c]"
| "lit (c # cs) = Cat (Cls False [c]) (lit cs)"

fun alts :: "re list \<Rightarrow> re" where
  "alts [] = Eps"
| "alts [r] = r"
| "alts (r # rs) = Alt r (alts rs)"

fun cats :: "re list \<Rightarrow> re" where
  "cats [] = Eps"
| "cats [r] = r"
| "cats (r # rs) = Cat r (cats rs)"

fun plain :: "re \<Rightarrow> bool" where
  \<comment> \<open>the pattern holds no capture group\<close>
  "plain (Group i a) = False"
| "plain (Cat a b) = (plain a \<and> plain b)"
| "plain (Alt a b) = (plain a \<and> plain b)"
| "plain (Quest greedy a) = plain a"
| "plain (Plus greedy a) = plain a"
| "plain r = True"

text \<open>
  The unanchored search: the start positions are tried from the left, rune by rune, the
  end of the text included; the first position with a match gives the result, the matched
  text and the captures.
\<close>

fun findFrom :: "re \<Rightarrow> nat \<Rightarrow> string \<Rightarrow> (string \<times> caps) option" where
  "findFrom r n [] =
     (case ms r (n, [], []) of [] \<Rightarrow> None | (n', s', c) # _ \<Rightarrow> Some ([], c))"
| "findFrom r n (c0 # rest) =
     (case ms r (n, c0 # rest, []) of
        (n', s', c) # _ \<Rightarrow> Some (take (n' - n) (c0 # rest), c)
      | [] \<Rightarrow> findFrom r (n + runeWidth c0 rest) (drop (runeWidth c0 rest - 1) rest))"

record regexp =
  expr :: re
  subexpNames :: "string list"

definition group :: "caps \<Rightarrow> nat \<Rightarrow> string" where
  \<comment> \<open>the text of a group, empty for a group that took no part in the match\<close>
  "group c i = (case map_of c i of None \<Rightarrow> [] | Some t \<Rightarrow> t)"

definition findStringSubmatch :: "regexp \<Rightarrow> string \<Rightarrow> string list" where
  \<comment> \<open>\<open>re.FindStringSubmatch(name)\<close>: nil when there is no match, otherwise the matched
      text followed by the text of each group\<close>
  "findStringSubmatch rx name =
     (case findFrom (expr rx) 0 name of
        None \<Rightarrow> []
      | Some (whole, c) \<Rightarrow> whole # map (group c) [1..<length (subexpNames rx)])"

section \<open>The patterns of package parser\<close>

definition lower :: string where
  "lower = ''abcdefghijklmnopqrstuvwxyz''"

definition upper :: string where
  "upper = ''ABCDEFGHIJKLMNOPQRSTUVWXYZ''"

definition d :: re where
  \<comment> \<open>\<open>\d\<close>\<close>
  "d = Cls False digits"

definition sp :: re where
  \<comment> \<open>\<open>\s\<close>: tab, newline, form feed, carriage return, space\<close>
  "sp = Cls False [CHR 0x09, CHR 0x0A, CHR 0x0C, CHR 0x0D, CHR '' '']"

definition volRegexp :: regexp where
  \<comment> \<open>\<open>(?:Vol|Volume|v)(?:\.\s)?(?P<uint>\d+)\<close>\<close>
  "volRegexp = \<lparr>
     expr = cats [alts [lit ''Vol'', lit ''Volume'', lit ''v''],
                  Quest True (Cat (lit ''.'') sp),
                  Group 1 (Plus True d)],
     subexpNames = ['''', ''uint''] \<rparr>"

definition chapRegexp :: regexp where
  \<comment> \<open>\<open>(?:Ch|Chapter|c)(?:\.\s)?(?P<uint>\d+)\<close>\<close>
  "chapRegexp = \<lparr>
     expr = cats [alts [lit ''Ch'', lit ''Chapter'', lit ''c''],
                  Quest True (Cat (lit ''.'') sp),
                  Group 1 (Plus True d)],
     subexpNames = ['''', ''uint''] \<rparr>"

definition absRegexp :: regexp where
  \<comment> \<open>\<open>(?P<uint>^\d+)\<close>\<close>
  "absRegexp = \<lparr>
     expr = Group 1 (Cat Bol (Plus True d)),
     subexpNames = ['''', ''uint''] \<rparr>"

definition notDotDigit :: re where
  \<comment> \<open>\<open>[^.0-9]\<close>\<close>
  "notDotDigit = Cls True (CHR ''.'' # digits)"

definition letter :: re where
  \<comment> \<open>\<open>[a-zA-Z]\<close>\<close>
  "letter = Cls False (lower @ upper)"

definition pnumRegexp :: regexp where
  \<comment> \<open>\<open>(?:p(\d+))|[^.0-9]{2}(?:(\d+)\.[a-zA-Z]+$)\<close>\<close>
  "pnumRegexp = \<lparr>
     expr = Alt (Cat (lit ''p'') (Group 1 (Plus True d)))
                (cats [notDotDigit, notDotDigit,
                       Group 2 (Plus True d), lit ''.'', Plus True letter, Eol]),
     subexpNames = ['''', '''', ''''] \<rparr>"

text \<open>
  The parts of \<open>pnumRegexp\<close> by name: its first alternative, and its second alternative
  with the tails that end it.
\<close>

definition markerForm :: re where
  \<comment> \<open>\<open>p(\d+)\<close>\<close>
  "markerForm = Cat (lit ''p'') (Group 1 (Plus True d))"

definition extTail :: re where
  \<comment> \<open>\<open>[a-zA-Z]+$\<close>\<close>
  "extTail = Cat (Plus True letter) Eol"

definition dotTail :: re where
  \<comment> \<open>\<open>\.[a-zA-Z]+$\<close>\<close>
  "dotTail = Cat (lit ''.'') extTail"

definition numberTail :: re where
  \<comment> \<open>\<open>(\d+)\.[a-zA-Z]+$\<close>\<close>
  "numberTail = Cat (Group 2 (Plus True d)) dotTail"

definition suffixForm :: re where
  \<comment> \<open>\<open>[^.0-9]{2}(?:(\d+)\.[a-zA-Z]+$)\<close>\<close>
  "suffixForm = Cat notDotDigit (Cat notDotDigit numberTail)"

definition titleChars :: string where
  \<comment> \<open>\<open>[a-zA-Z'_ ]\<close>\<close>
  "titleChars = lower @ upper @ [CHR 0x27, CHR ''_'', CHR '' '']"

definition separator :: re where
  \<comment> \<open>\<open>[_ ]\<close>\<close>
  "separator = Cls False ''_ ''"

definition titleRegexp :: regexp where
  \<comment> \<open>\<open>[_ ]?(?P<title>[a-zA-Z'_ ]+?)[_ ]?(?:[cvp]|(?:Vol|Volume|Chapter|Ch)\. )\d+\<close>\<close>
  "titleRegexp = \<lparr>
     expr = cats [Quest True separator,
                  Group 1 (Plus False (Cls False titleChars)),
                  Quest True separator,
                  Alt (Cls False ''cvp'')
                      (Cat (alts [lit ''Vol'', lit ''Volume'', lit ''Chapter'', lit ''Ch''])
                           (lit ''. '')),
                  Plus True d],
     subexpNames = ['''', ''title''] \<rparr>"

section \<open>Package parser\<close>

record Page =
  Title :: string
  FileName :: string
  Volume :: uint
  PageNumber :: uint
  AbsolutePageNumber :: uint
  Chapter :: uint

datatype panic =
    UintUnparsable
  | UintGroupMissing
  | PageNumberUnparsable
  | IndexOutOfRange

fun uintGroup :: "string list \<Rightarrow> string list \<Rightarrow> panic + uint" where
  \<comment> \<open>the loop of \<open>parseUintFromRegex\<close> over \<open>re.SubexpNames()\<close>, with \<open>match[i:]\<close>
      beside the names still to visit\<close>
  "uintGroup [] match = Inl UintGroupMissing"
| "uintGroup (name # names) match =
     (if name = ''uint'' then
        (case match of
           [] \<Rightarrow> Inl IndexOutOfRange
         | v # _ \<Rightarrow> (case parseUint v of None \<Rightarrow> Inl UintUnparsable | Some r \<Rightarrow> Inr r))
      else uintGroup names (drop 1 match))"

definition parseUintFromRegex :: "string \<Rightarrow> regexp \<Rightarrow> uint \<Rightarrow> panic + uint" where
  "parseUintFromRegex name rx defaultValue =
     (let match = findStringSubmatch rx name in
      if length match = 0 then Inr defaultValue
      else uintGroup (subexpNames rx) match)"

definition parseString :: "string \<Rightarrow> regexp \<Rightarrow> string" where
  "parseString name rx =
     (let match = findStringSubmatch rx name in
      if length match = 0 \<or> length match < 2 then [] else match ! 1)"

definition replaceAll :: "string \<Rightarrow> char \<Rightarrow> char \<Rightarrow> string" where
  \<comment> \<open>\<open>strings.ReplaceAll\<close> with one-character old and new strings\<close>
  "replaceAll s old new = map (\<lambda>c. if c = old then new else c) s"

fun pnumLoop :: "nat \<Rightarrow> string list \<Rightarrow> uint \<Rightarrow> panic + uint" where
  \<comment> \<open>the loop of \<open>parse\<close> over the submatches, \<open>i\<close> the index of the head of the list\<close>
  "pnumLoop i [] pnum = Inr pnum"
| "pnumLoop i (v # vs) pnum =
     (if v = [] \<or> i = 0 then pnumLoop (Suc i) vs pnum
      else (case parseUint v of
              None \<Rightarrow> Inl PageNumberUnparsable
            | Some pnumU64 \<Rightarrow> pnumLoop (Suc i) vs pnumU64))"

definition title_of :: "string \<Rightarrow> string" where
  \<comment> \<open>the variable \<open>title\<close> of \<open>parse\<close>\<close>
  "title_of name = replaceAll (parseString name titleRegexp) (CHR ''_'') (CHR '' '')"

definition pnum_of :: "string \<Rightarrow> panic + uint" where
  \<comment> \<open>the variable \<open>pnum\<close> of \<open>parse\<close> after its loop\<close>
  "pnum_of name = pnumLoop 0 (findStringSubmatch pnumRegexp name) undetermined"

definition andThen :: "panic + 'a \<Rightarrow> ('a \<Rightarrow> panic + 'b) \<Rightarrow> panic + 'b" where
  \<comment> \<open>a panic ends the call; otherwise the next statement runs\<close>
  "andThen x f = (case x of Inl e \<Rightarrow> Inl e | Inr v \<Rightarrow> f v)"

definition parse :: "string \<Rightarrow> panic + Page" where
  "parse name =
     andThen (parseUintFromRegex name volRegexp 0) (\<lambda>vol.
     andThen (parseUintFromRegex name chapRegexp 0) (\<lambda>chap.
     andThen (parseUintFromRegex name absRegexp undetermined) (\<lambda>abs_page.
     andThen (pnum_of name) (\<lambda>pnum.
       Inr \<lparr> Title = title_of name, FileName = name, Volume = vol, PageNumber = pnum,
             AbsolutePageNumber = abs_page, Chapter = chap \<rparr>))))"

datatype error = TitleNotFound

definition Parse :: "string \<Rightarrow> panic + (Page \<times> error option)" where
  \<comment> \<open>the pair is Go's \<open>(Page, error)\<close>; \<open>None\<close> is the nil error\<close>
  "Parse name =
     (case parse name of Inl e \<Rightarrow> Inl e
      | Inr p \<Rightarrow> if Title p = [] then Inr (p, Some TitleNotFound) else Inr (p, None))"

section \<open>The page-number forms, read off the text\<close>

text \<open>
  The two forms of a page number, written without the matcher. \<open>markerAt s\<close> is form (a)
  at the head of \<open>s\<close>: the letter \<open>p\<close> and the digits after it. \<open>suffixAt s\<close> is form (b)
  at the head of \<open>s\<close>: two characters (runes) that are neither a dot nor a digit, then
  digits, a dot and letters up to the end of \<open>s\<close>. Each returns the digits.
  \<open>candidates\<close> scans a file name for them from the left. \<open>lastWins\<close> is the rule as the
  specification words it, the last place found deciding; \<open>firstWins\<close> is the rule with
  the first place deciding.
\<close>

definition isLetter :: "char \<Rightarrow> bool" where
  "isLetter c = (c \<in> set (lower @ upper))"

definition markerAt :: "string \<Rightarrow> string option" where
  "markerAt s =
     (case s of [] \<Rightarrow> None
      | c # rest \<Rightarrow>
          if c = CHR ''p'' \<and> takeWhile isDigit rest \<noteq> [] then Some (takeWhile isDigit rest)
          else None)"

definition plainRune :: "string \<Rightarrow> string option" where
  \<comment> \<open>the input after one leading character that is neither a dot nor a digit\<close>
  "plainRune s =
     (case s of [] \<Rightarrow> None
      | c # rest \<Rightarrow>
          if c = CHR ''.'' \<or> isDigit c then None
          else Some (drop (snd (decodeRune c rest)) s))"

definition numberDotExt :: "string \<Rightarrow> string option" where
  \<comment> \<open>digits, a dot and letters, nothing after them\<close>
  "numberDotExt s =
     (let ds = takeWhile isDigit s in
      if ds = [] then None
      else (case dropWhile isDigit s of [] \<Rightarrow> None
            | c # ext \<Rightarrow>
                if c = CHR ''.'' \<and> ext \<noteq> [] \<and> list_all isLetter ext then Some ds else None))"

definition suffixAt :: "string \<Rightarrow> string option" where
  "suffixAt s =
     (case plainRune s of None \<Rightarrow> None
      | Some s1 \<Rightarrow> (case plainRune s1 of None \<Rightarrow> None | Some s2 \<Rightarrow> numberDotExt s2))"

definition formAt :: "string \<Rightarrow> string option" where
  "formAt s = (case markerAt s of Some ds \<Rightarrow> Some ds | None \<Rightarrow> suffixAt s)"

fun candidates :: "string \<Rightarrow> string list" where
  \<comment> \<open>the digits of every place where a form holds, from left to right\<close>
  "candidates [] = []"
| "candidates (c # rest) =
     (case formAt (c # rest) of None \<Rightarrow> [] | Some ds \<Rightarrow> [ds])
       @ candidates (drop (runeWidth c rest - 1) rest)"

definition chosen :: "string \<Rightarrow> panic + uint" where
  "chosen ds = (case parseUint ds of None \<Rightarrow> Inl PageNumberUnparsable | Some v \<Rightarrow> Inr v)"

definition lastWins :: "string \<Rightarrow> panic + uint" where
  \<comment> \<open>the page number if the last place found in a scan from the left decided\<close>
  "lastWins s = (if candidates s = [] then Inr undetermined else chosen (last (candidates s)))"

definition firstWins :: "string \<Rightarrow> panic + uint" where
  \<comment> \<open>the page number if the first place found in a scan from the left decides\<close>
  "firstWins s = (case candidates s of [] \<Rightarrow> Inr undetermined | ds # _ \<Rightarrow> chosen ds)"

definition beginsWithDigit :: "string \<Rightarrow> bool" where
  "beginsWithDigit s = (case s of [] \<Rightarrow> False | c # _ \<Rightarrow> isDigit c)"

section \<open>The command: grouping and archive names\<close>

datatype fatal =
    FailedToReadDirectory
  | FailedToParseFile
  | NoPagesFound
  | TitleMismatch
  | UnableToDetermineVolume
  | UnableToDeterminePageNumber
  | UnableToDetermineChapter
  | FailedToWritePages

text \<open>
  A Go \<open>map[uint][]T\<close> as an association list with one entry per key, in the order in
  which the keys were first stored. Go ranges over a map in no specified order; nothing
  below depends on the order.
\<close>

type_synonym 'p buckets = "(uint \<times> 'p list) list"

fun appendTo :: "uint \<Rightarrow> 'p \<Rightarrow> 'p buckets \<Rightarrow> 'p buckets" where
  \<comment> \<open>\<open>m[k] = append(m[k], p)\<close>\<close>
  "appendTo k p [] = [(k, [p])]"
| "appendTo k p ((k', ps) # m) =
     (if k' = k then (k', ps @ [p]) # m else (k', ps) # appendTo k p m)"

fun groupByVolume :: "string \<Rightarrow> Page list \<Rightarrow> Page buckets \<Rightarrow> fatal + Page buckets" where
  \<comment> \<open>the loop of \<open>main\<close> that checks every page and fills \<open>volMap\<close>\<close>
  "groupByVolume title [] volMap = Inr volMap"
| "groupByVolume title (p # ps) volMap =
     (if Title p \<noteq> title then Inl TitleMismatch
      else if Volume p = undetermined then Inl UnableToDetermineVolume
      else if PageNumber p = undetermined then Inl UnableToDeterminePageNumber
      else if Chapter p = undetermined then Inl UnableToDetermineChapter
      else groupByVolume title ps (appendTo (Volume p) p volMap))"

fun groupByChapter :: "Page list \<Rightarrow> Page buckets \<Rightarrow> Page buckets" where
  \<comment> \<open>the loop that fills \<open>chapMap\<close> from the pages of one volume\<close>
  "groupByChapter [] chapMap = chapMap"
| "groupByChapter (p # ps) chapMap = groupByChapter ps (appendTo (Chapter p) p chapMap)"

function showNat :: "nat \<Rightarrow> string" where
  \<comment> \<open>the verb \<open>%d\<close> on an unsigned value: decimal, no leading zeros\<close>
  "showNat n = (if n < 10 then [digits ! n] else showNat (n div 10) @ [digits ! (n mod 10)])"
  by pat_completeness auto
termination
  by (relation "measure id") auto

declare showNat.simps [simp del]

definition showUint :: "uint \<Rightarrow> string" where
  "showUint v = showNat (unat v)"

definition outputName :: "string \<Rightarrow> uint \<Rightarrow> uint \<Rightarrow> string" where
  "outputName title vol chap =
     (let name = title @ '' Vol.'' @ showUint vol;
          name = (if chap \<noteq> 0 then name @ '' Ch.'' @ showUint chap else name)
      in name @ ''.cbz'')"

type_synonym archive = "string \<times> Page list"

definition archivesOf :: "string \<Rightarrow> Page buckets \<Rightarrow> archive list" where
  \<comment> \<open>the calls of \<open>writePages\<close> that the nested iteration over volumes and chapters makes\<close>
  "archivesOf title volMap =
     concat (map (\<lambda>(vol, pages).
                    map (\<lambda>(chap, ps). (outputName title vol chap, ps)) (groupByChapter pages []))
                 volMap)"

record outcome =
  written :: "archive list"
  exitCode :: nat
  failure :: "fatal option"

text \<open>
  Writing is input and output: \<open>ok name\<close> tells whether \<open>writePages\<close> succeeds for the
  archive \<open>name\<close>. The first failure ends the run; the archives written before it stay.
\<close>

fun writeAll :: "(string \<Rightarrow> bool) \<Rightarrow> archive list \<Rightarrow> archive list \<Rightarrow> outcome" where
  "writeAll ok [] done = \<lparr> written = done, exitCode = 0, failure = None \<rparr>"
| "writeAll ok ((name, pages) # todo) done =
     (if ok name then writeAll ok todo (done @ [(name, pages)])
      else \<lparr> written = done, exitCode = 1, failure = Some FailedToWritePages \<rparr>)"

definition fatally :: "fatal \<Rightarrow> outcome" where
  \<comment> \<open>\<open>fatal\<close> and \<open>return\<close> before any archive is written\<close>
  "fatally e = \<lparr> written = [], exitCode = 1, failure = Some e \<rparr>"

definition processPages :: "(string \<Rightarrow> bool) \<Rightarrow> Page list \<Rightarrow> outcome" where
  \<comment> \<open>\<open>main\<close> from the point where every file name has been parsed\<close>
  "processPages ok pages =
     (case pages of [] \<Rightarrow> fatally NoPagesFound
      | first # _ \<Rightarrow>
          (case groupByVolume (Title first) pages [] of
             Inl e \<Rightarrow> fatally e
           | Inr volMap \<Rightarrow> writeAll ok (archivesOf (Title first) volMap) []))"

fun parseFiles :: "(string \<times> bool) list \<Rightarrow> Page list \<Rightarrow> panic + (fatal + Page list)" where
  \<comment> \<open>the loop over the directory entries, each a name and whether it is a directory\<close>
  "parseFiles [] pages = Inr (Inr pages)"
| "parseFiles ((name, isDir) # files) pages =
     (if isDir \<or> name = ''.DS_Store'' then parseFiles files pages
      else (case Parse name of
              Inl e \<Rightarrow> Inl e
            | Inr (p, Some err) \<Rightarrow> Inr (Inl FailedToParseFile)
            | Inr (p, None) \<Rightarrow> parseFiles files (pages @ [p])))"

definition main :: "(string \<Rightarrow> bool) \<Rightarrow> (string \<times> bool) list option \<Rightarrow> panic + outcome" where
  \<comment> \<open>\<open>None\<close> for the directory is a failed \<open>os.ReadDir\<close>\<close>
  "main ok dir =
     (case dir of None \<Rightarrow> Inr (fatally FailedToReadDirectory)
      | Some files \<Rightarrow>
          (case parseFiles files [] of
             Inl e \<Rightarrow> Inl e
           | Inr (Inl e) \<Rightarrow> Inr (fatally e)
           | Inr (Inr pages) \<Rightarrow> Inr (processPages ok pages)))"

section \<open>The matcher, one thread at a time\<close>

lemma ms_Eps: "ms Eps t = [t]"
  by (simp add: ms.simps)

lemma ms_Cls:
  "ms (Cls negated cs) (n, s, c) =
     (case s of [] \<Rightarrow> []
      | c0 # rest \<Rightarrow>
          (case decodeRune c0 rest of (r, w) \<Rightarrow>
             if inCls negated cs r then [(n + w, drop w s, c)] else []))"
  by (simp add: ms.simps)

lemma ms_Bol: "ms Bol (n, s, c) = (if n = 0 then [(n, s, c)] else [])"
  by (simp add: ms.simps)

lemma ms_Eol: "ms Eol (n, s, c) = (if s = [] then [(n, s, c)] else [])"
  by (simp add: ms.simps)

lemma ms_Cat: "ms (Cat a b) t = concat (map (ms b) (ms a t))"
  by (simp add: ms.simps)

lemma ms_Alt: "ms (Alt a b) t = ms a t @ ms b t"
  by (simp add: ms.simps)

lemma ms_Quest: "ms (Quest greedy a) t = (if greedy then ms a t @ [t] else t # ms a t)"
  by (simp add: ms.simps)

lemma ms_Plus: "ms (Plus greedy a) t = loop (ms a) greedy t"
  by (simp add: ms.simps)

lemma ms_Group:
  "ms (Group i a) (n, s, c) =
     map (\<lambda>(n', s', c'). (n', s', (i, take (n' - n) s) # c')) (ms a (n, s, c))"
  by (simp add: ms.simps)

lemmas ms_thread = ms_Eps ms_Cls ms_Bol ms_Eol ms_Cat ms_Alt ms_Quest ms_Plus ms_Group

section \<open>Evaluating the parser on given file names\<close>

lemmas matcher_eval =
  findStringSubmatch_def group_def remaining_def decodeRune_def byte_def inCls_def
  d_def sp_def digits_def lower_def upper_def letter_def notDotDigit_def separator_def
  titleChars_def Let_def runeWidth_def inRange_def loop.simps ms_thread

lemmas uint_eval =
  parseUint_def isDigit_def digits_def decimalValue_def digitVal_def byte_def

lemmas parse_eval =
  parse_def andThen_def parseUintFromRegex_def pnum_of_def title_of_def parseString_def
  replaceAll_def

lemmas regexps_eval =
  volRegexp_def chapRegexp_def absRegexp_def pnumRegexp_def titleRegexp_def

lemma subexpNames_uint [simp]:
  "subexpNames volRegexp = ['''', ''uint'']"
  "subexpNames chapRegexp = ['''', ''uint'']"
  "subexpNames absRegexp = ['''', ''uint'']"
  by (simp_all add: volRegexp_def chapRegexp_def absRegexp_def)

subsection \<open>The empty file name\<close>

lemma empty_vol: "findStringSubmatch volRegexp [] = []"
  by (simp add: matcher_eval volRegexp_def)

lemma empty_chap: "findStringSubmatch chapRegexp [] = []"
  by (simp add: matcher_eval chapRegexp_def)

lemma empty_abs: "findStringSubmatch absRegexp [] = []"
  by (simp add: matcher_eval absRegexp_def)

lemma empty_title: "findStringSubmatch titleRegexp [] = []"
  by (simp add: matcher_eval titleRegexp_def)

lemma empty_pnum: "findStringSubmatch pnumRegexp [] = []"
  by (simp add: matcher_eval pnumRegexp_def)

lemma parse_empty:
  "parse [] = Inr \<lparr> Title = [], FileName = [], Volume = 0, PageNumber = undetermined,
                    AbsolutePageNumber = undetermined, Chapter = 0 \<rparr>"
  by (simp add: parse_eval empty_vol empty_chap empty_abs empty_title empty_pnum)

text \<open>
  Claim C10. Parsing the empty string returns an error together with the record whose
  \<open>FileName\<close> and \<open>Title\<close> are empty, whose \<open>Volume\<close> and \<open>Chapter\<close> are 0, and whose
  \<open>PageNumber\<close> and \<open>AbsolutePageNumber\<close> are both \<open>^uint(0)\<close>, which is
  18446744073709551615.
\<close>

theorem Parse_empty_string:
  "Parse [] = Inr (\<lparr> Title = [], FileName = [], Volume = 0, PageNumber = undetermined,
                     AbsolutePageNumber = undetermined, Chapter = 0 \<rparr>, Some TitleNotFound)
   \<and> undetermined = (18446744073709551615 :: uint)"
  by (simp add: Parse_def parse_empty undetermined_def)

subsection \<open>The second file name of the test table\<close>

lemma series_vol:
  "findStringSubmatch volRegexp ''0001_A_Series_name_c001_v01_p000_Source_Quality_Release.jpg''
     = [''v01'', ''01'']"
  by (simp add: matcher_eval volRegexp_def)

lemma series_chap:
  "findStringSubmatch chapRegexp ''0001_A_Series_name_c001_v01_p000_Source_Quality_Release.jpg''
     = [''c001'', ''001'']"
  by (simp add: matcher_eval chapRegexp_def)

lemma series_abs:
  "findStringSubmatch absRegexp ''0001_A_Series_name_c001_v01_p000_Source_Quality_Release.jpg''
     = [''0001'', ''0001'']"
  by (simp add: matcher_eval absRegexp_def)

lemma series_title:
  "findStringSubmatch titleRegexp ''0001_A_Series_name_c001_v01_p000_Source_Quality_Release.jpg''
     = [''_A_Series_name_c001'', ''A_Series_name'']"
  by (simp add: matcher_eval titleRegexp_def)

lemma series_pnum:
  "findStringSubmatch pnumRegexp ''0001_A_Series_name_c001_v01_p000_Source_Quality_Release.jpg''
     = [''p000'', ''000'', '''']"
  by (simp add: matcher_eval pnumRegexp_def)

text \<open>
  Claim C4. Parsing \<open>0001_A_Series_name_c001_v01_p000_Source_Quality_Release.jpg\<close> gives the
  title \<open>A Series name\<close>, volume 1, chapter 1, absolute page number 1 and page number 0,
  with the file name kept as it is, and no error.
\<close>

theorem Parse_series_name:
  "Parse ''0001_A_Series_name_c001_v01_p000_Source_Quality_Release.jpg''
     = Inr (\<lparr> Title = ''A Series name'',
               FileName = ''0001_A_Series_name_c001_v01_p000_Source_Quality_Release.jpg'',
               Volume = 1, PageNumber = 0, AbsolutePageNumber = 1, Chapter = 1 \<rparr>, None)"
  by (simp add: Parse_def parse_eval series_vol series_chap series_abs series_title series_pnum
        uint_eval)

subsection \<open>The first and the third file name of the test table\<close>

lemma releaser_vol:
  "findStringSubmatch volRegexp ''[Releaser] A Random Name Vol. 1 Chapter. 01.jpg''
     = [''Vol. 1'', ''1'']"
  by (simp add: matcher_eval volRegexp_def)

lemma releaser_chap:
  "findStringSubmatch chapRegexp ''[Releaser] A Random Name Vol. 1 Chapter. 01.jpg''
     = [''Chapter. 01'', ''01'']"
  by (simp add: matcher_eval chapRegexp_def)

lemma releaser_abs:
  "findStringSubmatch absRegexp ''[Releaser] A Random Name Vol. 1 Chapter. 01.jpg'' = []"
  by (simp add: matcher_eval absRegexp_def)

lemma releaser_title:
  "findStringSubmatch titleRegexp ''[Releaser] A Random Name Vol. 1 Chapter. 01.jpg''
     = ['' A Random Name Vol. 1'', ''A Random Name'']"
  by (simp add: matcher_eval titleRegexp_def)

lemma releaser_pnum:
  "findStringSubmatch pnumRegexp ''[Releaser] A Random Name Vol. 1 Chapter. 01.jpg'' = []"
  by (simp add: matcher_eval pnumRegexp_def)

lemma Parse_releaser:
  "Parse ''[Releaser] A Random Name Vol. 1 Chapter. 01.jpg''
     = Inr (\<lparr> Title = ''A Random Name'',
               FileName = ''[Releaser] A Random Name Vol. 1 Chapter. 01.jpg'',
               Volume = 1, PageNumber = undetermined, AbsolutePageNumber = undetermined,
               Chapter = 1 \<rparr>, None)"
  by (simp add: Parse_def parse_eval releaser_vol releaser_chap releaser_abs releaser_title
        releaser_pnum uint_eval)

lemma random_vol:
  "findStringSubmatch volRegexp ''1009_A_Random_Name_c118_v14_Releaser_HQ_60.jpg''
     = [''v14'', ''14'']"
  by (simp add: matcher_eval volRegexp_def)

lemma random_chap:
  "findStringSubmatch chapRegexp ''1009_A_Random_Name_c118_v14_Releaser_HQ_60.jpg''
     = [''c118'', ''118'']"
  by (simp add: matcher_eval chapRegexp_def)

lemma random_abs:
  "findStringSubmatch absRegexp ''1009_A_Random_Name_c118_v14_Releaser_HQ_60.jpg''
     = [''1009'', ''1009'']"
  by (simp add: matcher_eval absRegexp_def)

lemma random_title:
  "findStringSubmatch titleRegexp ''1009_A_Random_Name_c118_v14_Releaser_HQ_60.jpg''
     = [''_A_Random_Name_c118'', ''A_Random_Name'']"
  by (simp add: matcher_eval titleRegexp_def)

lemma random_pnum:
  "findStringSubmatch pnumRegexp ''1009_A_Random_Name_c118_v14_Releaser_HQ_60.jpg''
     = [''Q_60.jpg'', '''', ''60'']"
  by (simp add: matcher_eval pnumRegexp_def)

lemma Parse_random_name:
  "Parse ''1009_A_Random_Name_c118_v14_Releaser_HQ_60.jpg''
     = Inr (\<lparr> Title = ''A Random Name'',
               FileName = ''1009_A_Random_Name_c118_v14_Releaser_HQ_60.jpg'',
               Volume = 14, PageNumber = 60, AbsolutePageNumber = 1009, Chapter = 118 \<rparr>, None)"
  by (simp add: Parse_def parse_eval random_vol random_chap random_abs random_title
        random_pnum uint_eval)

subsection \<open>Digit runs of \<open>2^64\<close> and more\<close>

lemma parseUint_limit:
  "parseUint ''18446744073709551616'' = None"
  "parseUint ''18446744073709551615'' = Some undetermined"
  by (simp_all add: uint_eval undetermined_def)

lemma wide_volume_vol:
  "findStringSubmatch volRegexp ''A_v18446744073709551616''
     = [''v18446744073709551616'', ''18446744073709551616'']"
  by (simp add: matcher_eval volRegexp_def)

lemma wide_volume_title: "title_of ''A_v18446744073709551616'' = ''A''"
  by (simp add: title_of_def parseString_def replaceAll_def matcher_eval titleRegexp_def)

text \<open>
  Claim C2 says that \<open>Parse\<close> returns an error exactly when the title is empty, returns the
  record in every case, and fails for no other reason. On the file name
  \<open>A_v18446744073709551616\<close> the title is \<open>A\<close>, yet \<open>Parse\<close> returns nothing: the volume
  digits do not fit 64 bits, \<open>strconv.ParseUint\<close> reports a range error, and
  \<open>parseUintFromRegex\<close> panics.
\<close>

theorem Parse_panics_with_title:
  "Parse ''A_v18446744073709551616'' = Inl UintUnparsable
   \<and> title_of ''A_v18446744073709551616'' = ''A''"
  by (simp add: Parse_def parse_def andThen_def parseUintFromRegex_def wide_volume_vol
        wide_volume_title parseUint_limit)

lemma wide_page_vol: "findStringSubmatch volRegexp ''x_p18446744073709551616.jpg'' = []"
  by (simp add: matcher_eval volRegexp_def)

lemma wide_page_chap: "findStringSubmatch chapRegexp ''x_p18446744073709551616.jpg'' = []"
  by (simp add: matcher_eval chapRegexp_def)

lemma wide_page_abs: "findStringSubmatch absRegexp ''x_p18446744073709551616.jpg'' = []"
  by (simp add: matcher_eval absRegexp_def)

lemma wide_page_pnum:
  "findStringSubmatch pnumRegexp ''x_p18446744073709551616.jpg''
     = [''_p18446744073709551616.jpg'', '''', ''18446744073709551616'']"
  by (simp add: matcher_eval pnumRegexp_def)

lemma wide_chapter_vol: "findStringSubmatch volRegexp ''c18446744073709551616'' = []"
  by (simp add: matcher_eval volRegexp_def)

lemma wide_chapter_chap:
  "findStringSubmatch chapRegexp ''c18446744073709551616''
     = [''c18446744073709551616'', ''18446744073709551616'']"
  by (simp add: matcher_eval chapRegexp_def)

text \<open>
  Claim C3 says that the panic branches of \<open>parseUintFromRegex\<close> and of the page-number
  loop of \<open>parse\<close> cannot be reached. Both are reached: a capture of digits only parses
  unless its value is \<open>2^64\<close> or more, and then \<open>strconv.ParseUint\<close> returns a range
  error. The file name \<open>x_p18446744073709551616.jpg\<close> panics in the page-number loop and
  \<open>c18446744073709551616\<close> panics in \<open>parseUintFromRegex\<close>.
\<close>

theorem parse_panics_on_wide_digits:
  "parse ''x_p18446744073709551616.jpg'' = Inl PageNumberUnparsable
   \<and> parse ''c18446744073709551616'' = Inl UintUnparsable"
  by (simp add: parse_eval wide_page_vol wide_page_chap wide_page_abs wide_page_pnum
        wide_chapter_vol wide_chapter_chap parseUint_limit)

section \<open>The grouping stage\<close>

lemma groupByVolume_fails_iff:
  "isl (groupByVolume title pages volMap) \<longleftrightarrow>
     (\<exists>p\<in>set pages. Title p \<noteq> title \<or> Volume p = undetermined
        \<or> PageNumber p = undetermined \<or> Chapter p = undetermined)"
  by (induction pages arbitrary: volMap) auto

lemma processPages_fatal:
  assumes "isl (groupByVolume (Title (hd pages)) pages [])"
  shows "written (processPages ok pages) = [] \<and> exitCode (processPages ok pages) = 1"
proof (cases pages)
  case Nil
  then show ?thesis by (simp add: processPages_def fatally_def)
next
  case (Cons first rest)
  with assms obtain e where "groupByVolume (Title first) (first # rest) [] = Inl e"
    by (cases "groupByVolume (Title first) (first # rest) []") auto
  with Cons show ?thesis by (simp add: processPages_def fatally_def)
qed

text \<open>
  Claim C5. The run fails, with exit code 1 and no archive written, whenever some entry's
  volume, chapter or page number is the sentinel \<open>^uint(0)\<close>. Any other chapter, 0
  included, is accepted: entries that share the title and carry no sentinel pass the
  checks.
\<close>

theorem undetermined_field_is_fatal:
  "((\<exists>p\<in>set pages. Volume p = undetermined \<or> Chapter p = undetermined
        \<or> PageNumber p = undetermined)
     \<longrightarrow> written (processPages ok pages) = [] \<and> exitCode (processPages ok pages) = 1)
   \<and> ((\<forall>p\<in>set pages. Title p = title \<and> Volume p \<noteq> undetermined
          \<and> PageNumber p \<noteq> undetermined \<and> Chapter p \<noteq> undetermined)
     \<longrightarrow> (\<exists>volMap. groupByVolume title pages [] = Inr volMap))"
proof (intro conjI impI)
  assume "\<exists>p\<in>set pages. Volume p = undetermined \<or> Chapter p = undetermined
        \<or> PageNumber p = undetermined"
  then have "isl (groupByVolume (Title (hd pages)) pages [])"
    unfolding groupByVolume_fails_iff by blast
  then show "written (processPages ok pages) = []" and "exitCode (processPages ok pages) = 1"
    using processPages_fatal by blast+
next
  assume "\<forall>p\<in>set pages. Title p = title \<and> Volume p \<noteq> undetermined
          \<and> PageNumber p \<noteq> undetermined \<and> Chapter p \<noteq> undetermined"
  then have "\<not> isl (groupByVolume title pages [])"
    unfolding groupByVolume_fails_iff by blast
  then show "\<exists>volMap. groupByVolume title pages [] = Inr volMap"
    by (cases "groupByVolume title pages []") auto
qed

theorem undetermined_field_is_fatal_witness:
  "written (processPages (\<lambda>_. True)
        [\<lparr> Title = ''T'', FileName = ''a'', Volume = 1, PageNumber = undetermined,
           AbsolutePageNumber = 1, Chapter = 0 \<rparr>]) = []
   \<and> exitCode (processPages (\<lambda>_. True)
        [\<lparr> Title = ''T'', FileName = ''a'', Volume = 1, PageNumber = undetermined,
           AbsolutePageNumber = 1, Chapter = 0 \<rparr>]) = 1
   \<and> (\<exists>volMap. groupByVolume ''T'' [\<lparr> Title = ''T'', FileName = ''b'', Volume = 1,
                  PageNumber = 3, AbsolutePageNumber = 1, Chapter = 0 \<rparr>] [] = Inr volMap)"
proof -
  have sentinel: "\<exists>p\<in>set [\<lparr> Title = ''T'', FileName = ''a'', Volume = 1,
                      PageNumber = undetermined, AbsolutePageNumber = 1, Chapter = 0 \<rparr>].
        Volume p = undetermined \<or> Chapter p = undetermined \<or> PageNumber p = undetermined"
    by simp
  have sound: "\<forall>p\<in>set [\<lparr> Title = ''T'', FileName = ''b'', Volume = 1, PageNumber = 3,
                  AbsolutePageNumber = 1, Chapter = 0 \<rparr>].
        Title p = ''T'' \<and> Volume p \<noteq> undetermined
          \<and> PageNumber p \<noteq> undetermined \<and> Chapter p \<noteq> undetermined"
    by (simp add: undetermined_def)
  from sentinel sound show ?thesis
    using undetermined_field_is_fatal
      [of "[\<lparr> Title = ''T'', FileName = ''a'', Volume = 1, PageNumber = undetermined,
             AbsolutePageNumber = 1, Chapter = 0 \<rparr>]" "\<lambda>_. True" "''T''"]
      undetermined_field_is_fatal
      [of "[\<lparr> Title = ''T'', FileName = ''b'', Volume = 1, PageNumber = 3,
             AbsolutePageNumber = 1, Chapter = 0 \<rparr>]" "\<lambda>_. True" "''T''"]
    by blast
qed

text \<open>
  Claim C6. If any entry's title differs from the title of the first entry, the run
  fails: exit code 1, a fatal error, and no archive written.
\<close>

theorem title_mismatch_is_fatal:
  assumes "p \<in> set pages" and "Title p \<noteq> Title (hd pages)"
  shows "written (processPages ok pages) = [] \<and> exitCode (processPages ok pages) = 1
         \<and> failure (processPages ok pages) \<noteq> None"
proof -
  from assms have "isl (groupByVolume (Title (hd pages)) pages [])"
    unfolding groupByVolume_fails_iff by blast
  moreover from this have "failure (processPages ok pages) \<noteq> None"
    by (cases pages; cases "groupByVolume (Title (hd pages)) pages []")
       (auto simp: processPages_def fatally_def)
  ultimately show ?thesis using processPages_fatal by blast
qed

theorem title_mismatch_is_fatal_witness:
  "\<lparr> Title = ''U'', FileName = ''b'', Volume = 1, PageNumber = 2,
      AbsolutePageNumber = 2, Chapter = 1 \<rparr>
     \<in> set [\<lparr> Title = ''T'', FileName = ''a'', Volume = 1, PageNumber = 1,
               AbsolutePageNumber = 1, Chapter = 1 \<rparr>,
             \<lparr> Title = ''U'', FileName = ''b'', Volume = 1, PageNumber = 2,
               AbsolutePageNumber = 2, Chapter = 1 \<rparr>]
   \<and> written (processPages (\<lambda>_. True)
         [\<lparr> Title = ''T'', FileName = ''a'', Volume = 1, PageNumber = 1,
            AbsolutePageNumber = 1, Chapter = 1 \<rparr>,
          \<lparr> Title = ''U'', FileName = ''b'', Volume = 1, PageNumber = 2,
            AbsolutePageNumber = 2, Chapter = 1 \<rparr>]) = []
   \<and> exitCode (processPages (\<lambda>_. True)
         [\<lparr> Title = ''T'', FileName = ''a'', Volume = 1, PageNumber = 1,
            AbsolutePageNumber = 1, Chapter = 1 \<rparr>,
          \<lparr> Title = ''U'', FileName = ''b'', Volume = 1, PageNumber = 2,
            AbsolutePageNumber = 2, Chapter = 1 \<rparr>]) = 1"
  using title_mismatch_is_fatal
    [of "\<lparr> Title = ''U'', FileName = ''b'', Volume = 1, PageNumber = 2,
            AbsolutePageNumber = 2, Chapter = 1 \<rparr>"
        "[\<lparr> Title = ''T'', FileName = ''a'', Volume = 1, PageNumber = 1,
            AbsolutePageNumber = 1, Chapter = 1 \<rparr>,
          \<lparr> Title = ''U'', FileName = ''b'', Volume = 1, PageNumber = 2,
            AbsolutePageNumber = 2, Chapter = 1 \<rparr>]" "\<lambda>_. True"]
  by simp

section \<open>Archive names\<close>

lemma digit_at:
  assumes "k < 10"
  shows "digitVal (digits ! k) = k \<and> isDigit (digits ! k)"
proof -
  from assms have "k \<in> {0, 1, 2, 3, 4, 5, 6, 7, 8, 9}" by auto
  then show ?thesis
    by (auto simp: digits_def digitVal_def byte_def isDigit_def)
qed

lemma decimalValue_snoc: "decimalValue (s @ [c]) = 10 * decimalValue s + digitVal c"
  by (simp add: decimalValue_def)

lemma showNat_decimal: "decimalValue (showNat n) = n \<and> list_all isDigit (showNat n) \<and> showNat n \<noteq> []"
proof (induction n rule: showNat.induct)
  case (1 n)
  show ?case
  proof (cases "n < 10")
    case True
    then show ?thesis
      using digit_at [of n] by (subst (1 2 3) showNat.simps) (simp add: decimalValue_def)
  next
    case False
    then have "n mod 10 < 10" by simp
    with False 1 show ?thesis
      using digit_at [of "n mod 10"]
      by (subst (1 2 3) showNat.simps) (simp add: decimalValue_snoc)
  qed
qed

lemma parseUint_showUint: "parseUint (showUint v) = Some v"
proof -
  have "unat v < 2 ^ 64" using unsigned_less [of v] by simp
  then show ?thesis
    using showNat_decimal [of "unat v"] by (simp add: parseUint_def showUint_def)
qed

lemma appendTo_entries:
  "(k', qs) \<in> set (appendTo k p m) \<Longrightarrow>
     (k', qs) \<in> set m \<or> (k' = k \<and> (qs = [p] \<or> (\<exists>ps. (k, ps) \<in> set m \<and> qs = ps @ [p])))"
  by (induction m) (auto split: if_splits)

lemma groupByVolume_entries:
  assumes "groupByVolume title pages m = Inr volMap"
    and "\<forall>(k, ps)\<in>set m. ps \<noteq> [] \<and> (\<forall>q\<in>set ps. Volume q = k \<and> Title q = title)"
  shows "\<forall>(k, ps)\<in>set volMap. ps \<noteq> [] \<and> (\<forall>q\<in>set ps. Volume q = k \<and> Title q = title)"
  using assms
proof (induction pages arbitrary: m)
  case Nil
  then show ?case by simp
next
  case (Cons p pages)
  from Cons.prems(1) have ok: "Title p = title"
    and rec: "groupByVolume title pages (appendTo (Volume p) p m) = Inr volMap"
    by (auto split: if_splits)
  have "\<forall>(k, ps)\<in>set (appendTo (Volume p) p m).
          ps \<noteq> [] \<and> (\<forall>q\<in>set ps. Volume q = k \<and> Title q = title)"
    using Cons.prems(2) ok by (fastforce dest: appendTo_entries)
  with rec show ?case by (rule Cons.IH)
qed

lemma groupByChapter_entries:
  assumes "\<forall>q\<in>set pages. R q"
    and "\<forall>(k, ps)\<in>set m. ps \<noteq> [] \<and> (\<forall>q\<in>set ps. Chapter q = k \<and> R q)"
  shows "\<forall>(k, ps)\<in>set (groupByChapter pages m).
           ps \<noteq> [] \<and> (\<forall>q\<in>set ps. Chapter q = k \<and> R q)"
  using assms
proof (induction pages arbitrary: m)
  case Nil
  then show ?case by simp
next
  case (Cons p pages)
  have "\<forall>(k, ps)\<in>set (appendTo (Chapter p) p m).
          ps \<noteq> [] \<and> (\<forall>q\<in>set ps. Chapter q = k \<and> R q)"
    using Cons.prems by (fastforce dest: appendTo_entries)
  with Cons.prems(1) show ?case by (simp add: Cons.IH)
qed

lemma writeAll_written: "set (written (writeAll ok todo done)) \<subseteq> set done \<union> set todo"
  by (induction ok todo "done" rule: writeAll.induct) auto

lemma archivesOf_entries:
  assumes "(name, bucket) \<in> set (archivesOf title volMap)"
    and "\<forall>(k, ps)\<in>set volMap. ps \<noteq> [] \<and> (\<forall>q\<in>set ps. Volume q = k \<and> Title q = title)"
  shows "bucket \<noteq> [] \<and> (\<forall>q\<in>set bucket. name = outputName (Title q) (Volume q) (Chapter q))"
proof -
  from assms(1) obtain vol pages chap
    where v: "(vol, pages) \<in> set volMap"
      and c: "(chap, bucket) \<in> set (groupByChapter pages [])"
      and n: "name = outputName title vol chap"
    by (auto simp: archivesOf_def)
  from v assms(2) have "\<forall>q\<in>set pages. Volume q = vol \<and> Title q = title" by auto
  then have "\<forall>(k, ps)\<in>set (groupByChapter pages []).
      ps \<noteq> [] \<and> (\<forall>q\<in>set ps. Chapter q = k \<and> (Volume q = vol \<and> Title q = title))"
    by (intro groupByChapter_entries) auto
  with c n show ?thesis by auto
qed

lemma written_entries:
  assumes "(name, bucket) \<in> set (written (processPages ok pages))"
  shows "bucket \<noteq> [] \<and> (\<forall>q\<in>set bucket. name = outputName (Title q) (Volume q) (Chapter q))"
proof (cases pages)
  case Nil
  with assms show ?thesis by (simp add: processPages_def fatally_def)
next
  case (Cons first rest)
  show ?thesis
  proof (cases "groupByVolume (Title first) pages []")
    case (Inl e)
    with assms Cons show ?thesis by (simp add: processPages_def fatally_def)
  next
    case (Inr volMap)
    with assms Cons have "(name, bucket) \<in> set (archivesOf (Title first) volMap)"
      using writeAll_written [of ok "archivesOf (Title first) volMap" "[]"]
      by (auto simp: processPages_def)
    moreover have "\<forall>(k, ps)\<in>set volMap.
        ps \<noteq> [] \<and> (\<forall>q\<in>set ps. Volume q = k \<and> Title q = Title first)"
      using Inr by (rule groupByVolume_entries) simp
    ultimately show ?thesis by (rule archivesOf_entries)
  qed
qed

lemma two_chapters_run:
  "written (processPages (\<lambda>_. True)
     [\<lparr> Title = ''T'', FileName = ''a.jpg'', Volume = 2, PageNumber = 1,
        AbsolutePageNumber = 1, Chapter = 5 \<rparr>,
      \<lparr> Title = ''T'', FileName = ''b.jpg'', Volume = 2, PageNumber = 2,
        AbsolutePageNumber = 2, Chapter = 0 \<rparr>])
   = [(''T Vol.2 Ch.5.cbz'',
        [\<lparr> Title = ''T'', FileName = ''a.jpg'', Volume = 2, PageNumber = 1,
           AbsolutePageNumber = 1, Chapter = 5 \<rparr>]),
      (''T Vol.2.cbz'',
        [\<lparr> Title = ''T'', FileName = ''b.jpg'', Volume = 2, PageNumber = 2,
           AbsolutePageNumber = 2, Chapter = 0 \<rparr>])]"
  by (simp add: processPages_def archivesOf_def outputName_def undetermined_def
       showUint_def showNat.simps digits_def)

text \<open>
  Claim C7. Every archive the run writes holds a bucket that is not empty, and for each
  page of the bucket, with title \<open>T\<close>, volume \<open>V\<close> and chapter \<open>C\<close>, the archive is named
  \<open>T Vol.V Ch.C.cbz\<close> when \<open>C\<close> is not 0 and \<open>T Vol.V.cbz\<close> when \<open>C\<close> is 0, the numbers in
  decimal. For title \<open>T\<close>, volume 2 and chapter 5 the name is \<open>T Vol.2 Ch.5.cbz\<close>, and
  \<open>T Vol.2.cbz\<close> for chapter 0.
\<close>

theorem archive_name_format:
  assumes "(name, bucket) \<in> set (written (processPages ok pages))"
  shows "bucket \<noteq> []
       \<and> (\<forall>p\<in>set bucket.
            (Chapter p \<noteq> 0 \<longrightarrow>
               name = Title p @ '' Vol.'' @ showUint (Volume p)
                        @ '' Ch.'' @ showUint (Chapter p) @ ''.cbz'')
          \<and> (Chapter p = 0 \<longrightarrow> name = Title p @ '' Vol.'' @ showUint (Volume p) @ ''.cbz''))
       \<and> outputName ''T'' 2 5 = ''T Vol.2 Ch.5.cbz''
       \<and> outputName ''T'' 2 0 = ''T Vol.2.cbz''"
proof -
  have "outputName ''T'' 2 5 = ''T Vol.2 Ch.5.cbz''" "outputName ''T'' 2 0 = ''T Vol.2.cbz''"
    by (simp_all add: outputName_def showUint_def showNat.simps digits_def)
  then show ?thesis
    using written_entries [OF assms] by (simp add: outputName_def)
qed

theorem archive_name_format_witness:
  "(''T Vol.2 Ch.5.cbz'',
      [\<lparr> Title = ''T'', FileName = ''a.jpg'', Volume = 2, PageNumber = 1,
         AbsolutePageNumber = 1, Chapter = 5 \<rparr>])
     \<in> set (written (processPages (\<lambda>_. True)
         [\<lparr> Title = ''T'', FileName = ''a.jpg'', Volume = 2, PageNumber = 1,
            AbsolutePageNumber = 1, Chapter = 5 \<rparr>,
          \<lparr> Title = ''T'', FileName = ''b.jpg'', Volume = 2, PageNumber = 2,
            AbsolutePageNumber = 2, Chapter = 0 \<rparr>]))
   \<and> ''T Vol.2 Ch.5.cbz'' = ''T'' @ '' Vol.'' @ showUint 2 @ '' Ch.'' @ showUint 5 @ ''.cbz''
   \<and> (''T Vol.2.cbz'',
      [\<lparr> Title = ''T'', FileName = ''b.jpg'', Volume = 2, PageNumber = 2,
         AbsolutePageNumber = 2, Chapter = 0 \<rparr>])
     \<in> set (written (processPages (\<lambda>_. True)
         [\<lparr> Title = ''T'', FileName = ''a.jpg'', Volume = 2, PageNumber = 1,
            AbsolutePageNumber = 1, Chapter = 5 \<rparr>,
          \<lparr> Title = ''T'', FileName = ''b.jpg'', Volume = 2, PageNumber = 2,
            AbsolutePageNumber = 2, Chapter = 0 \<rparr>]))
   \<and> ''T Vol.2.cbz'' = ''T'' @ '' Vol.'' @ showUint 2 @ ''.cbz''"
proof -
  have with_chapter: "(''T Vol.2 Ch.5.cbz'',
      [\<lparr> Title = ''T'', FileName = ''a.jpg'', Volume = 2, PageNumber = 1,
         AbsolutePageNumber = 1, Chapter = 5 \<rparr>])
     \<in> set (written (processPages (\<lambda>_. True)
         [\<lparr> Title = ''T'', FileName = ''a.jpg'', Volume = 2, PageNumber = 1,
            AbsolutePageNumber = 1, Chapter = 5 \<rparr>,
          \<lparr> Title = ''T'', FileName = ''b.jpg'', Volume = 2, PageNumber = 2,
            AbsolutePageNumber = 2, Chapter = 0 \<rparr>]))"
    by (simp add: two_chapters_run)
  have without_chapter: "(''T Vol.2.cbz'',
      [\<lparr> Title = ''T'', FileName = ''b.jpg'', Volume = 2, PageNumber = 2,
         AbsolutePageNumber = 2, Chapter = 0 \<rparr>])
     \<in> set (written (processPages (\<lambda>_. True)
         [\<lparr> Title = ''T'', FileName = ''a.jpg'', Volume = 2, PageNumber = 1,
            AbsolutePageNumber = 1, Chapter = 5 \<rparr>,
          \<lparr> Title = ''T'', FileName = ''b.jpg'', Volume = 2, PageNumber = 2,
            AbsolutePageNumber = 2, Chapter = 0 \<rparr>]))"
    by (simp add: two_chapters_run)
  from archive_name_format [OF with_chapter] archive_name_format [OF without_chapter]
    with_chapter without_chapter
  show ?thesis by simp
qed

section \<open>What a class and a run of a class consume\<close>

lemma runeWidth_bounds: "1 \<le> runeWidth c rest \<and> runeWidth c rest \<le> Suc (length rest)"
  by (simp add: runeWidth_def Let_def Suc_le_eq not_less)

lemma ms_Cls_positive:
  "ms (Cls False cs) (n, s, c) =
     (case s of [] \<Rightarrow> []
      | c0 # rest \<Rightarrow> if byte c0 < 0x80 \<and> c0 \<in> set cs then [(Suc n, rest, c)] else [])"
  by (simp add: ms_Cls decodeRune_def inCls_def split: list.split)

lemma loop_class_Nil: "loop (ms (Cls False cs)) greedy (n, [], c) = []"
  by (subst loop.simps) (simp add: ms_Cls_positive)

lemma loop_class_Cons:
  "loop (ms (Cls False cs)) greedy (n, c0 # rest, c) =
     (if byte c0 < 0x80 \<and> c0 \<in> set cs
      then (if greedy then loop (ms (Cls False cs)) greedy (Suc n, rest, c) @ [(Suc n, rest, c)]
            else (Suc n, rest, c) # loop (ms (Cls False cs)) greedy (Suc n, rest, c))
      else [])"
  by (subst loop.simps, cases "byte c0 < 0x80 \<and> c0 \<in> set cs"; cases greedy)
     (simp_all add: ms_Cls_positive remaining_def)

lemma loop_class_consumes:
  "(n', s', c') \<in> set (loop (ms (Cls False cs)) greedy (n, s, c)) \<Longrightarrow>
     \<exists>u. s = u @ s' \<and> n' = n + length u \<and> u \<noteq> [] \<and> set u \<subseteq> set cs \<and> c' = c"
proof (induction s arbitrary: n)
  case Nil
  then show ?case by (simp add: loop_class_Nil)
next
  case (Cons c0 rest)
  from Cons.prems have hit: "c0 \<in> set cs"
    and here: "(n', s', c') = (Suc n, rest, c)
               \<or> (n', s', c') \<in> set (loop (ms (Cls False cs)) greedy (Suc n, rest, c))"
    by (auto simp: loop_class_Cons split: if_splits)
  from here show ?case
  proof
    assume "(n', s', c') = (Suc n, rest, c)"
    with hit show ?thesis by (intro exI [of _ "[c0]"]) simp
  next
    assume "(n', s', c') \<in> set (loop (ms (Cls False cs)) greedy (Suc n, rest, c))"
    then obtain u where "rest = u @ s'" "n' = Suc n + length u" "set u \<subseteq> set cs" "c' = c"
      using Cons.IH by blast
    with hit show ?thesis by (intro exI [of _ "c0 # u"]) simp
  qed
qed

section \<open>Patterns without groups leave the captures alone\<close>

lemma loop_keeps_captures:
  "\<forall>t t'. t' \<in> set (f t) \<longrightarrow> snd (snd t') = snd (snd t) \<Longrightarrow>
   t' \<in> set (loop f greedy t) \<Longrightarrow> snd (snd t') = snd (snd t)"
proof (induction f greedy t arbitrary: t' rule: loop.induct)
  case (1 f greedy t)
  note step = "1.prems"(1)
  from "1.prems"(2)
  have "\<exists>m\<in>set (f t). t' = m \<or> (remaining m < remaining t \<and> t' \<in> set (loop f greedy m))"
    by (subst (asm) loop.simps) (auto split: if_splits)
  then obtain m where m: "m \<in> set (f t)"
    and t': "t' = m \<or> (remaining m < remaining t \<and> t' \<in> set (loop f greedy m))"
    by blast
  from m step have here: "snd (snd m) = snd (snd t)" by blast
  from t' show ?case
  proof
    assume "t' = m"
    with here show ?thesis by simp
  next
    assume deeper: "remaining m < remaining t \<and> t' \<in> set (loop f greedy m)"
    then have "snd (snd t') = snd (snd m)"
      using "1.IH"(1) [of m t'] "1.IH"(2) [of m t'] m step by (cases greedy) blast+
    with here show ?thesis by simp
  qed
qed

lemma plain_keeps_captures:
  "plain r \<Longrightarrow> t' \<in> set (ms r t) \<Longrightarrow> snd (snd t') = snd (snd t)"
proof (induction r arbitrary: t t')
  case (Cls negated cs)
  then show ?case
    by (cases t) (auto simp: ms_Cls split: list.splits prod.splits if_splits)
next
  case (Cat a b)
  from Cat.prems obtain m where "m \<in> set (ms a t)" and "t' \<in> set (ms b m)"
    by (auto simp: ms_Cat)
  with Cat.prems Cat.IH(1) [of m t] Cat.IH(2) [of t' m] show ?case by simp
next
  case (Plus greedy a)
  then show ?case
    using loop_keeps_captures [of "ms a" t' greedy t] by (simp add: ms_Plus)
next
  case (Group i a)
  then show ?case by simp
qed (auto simp: ms_thread split: if_splits prod.splits)

section \<open>The title\<close>

lemma findFrom_Some_outcome:
  "findFrom r n s = Some (w, c) \<Longrightarrow> \<exists>n0 s0 n' s'. (n', s', c) \<in> set (ms r (n0, s0, []))"
proof (induction r n s rule: findFrom.induct)
  case (1 r n)
  show ?case
  proof (cases "ms r (n, [], [])")
    case Nil
    with 1 show ?thesis by simp
  next
    case (Cons t ts)
    with "1.prems" have "(fst t, fst (snd t), c) \<in> set (ms r (n, [], []))"
      by (cases t) auto
    then show ?thesis by blast
  qed
next
  case (2 r n c0 rest)
  show ?case
  proof (cases "ms r (n, c0 # rest, [])")
    case Nil
    with 2 show ?thesis by simp
  next
    case (Cons t ts)
    with "2.prems" have "(fst t, fst (snd t), c) \<in> set (ms r (n, c0 # rest, []))"
      by (cases t) auto
    then show ?thesis by blast
  qed
qed

lemma title_group:
  assumes "t' \<in> set (ms (expr titleRegexp) (n, s, []))"
  shows "\<exists>u. snd (snd t') = [(1, u)] \<and> set u \<subseteq> set titleChars"
proof -
  define tail where "tail = Cat (Quest True separator)
      (Cat (Alt (Cls False ''cvp'')
                (Cat (alts [lit ''Vol'', lit ''Volume'', lit ''Chapter'', lit ''Ch''])
                     (lit ''. '')))
           (Plus True d))"
  have plain_tail: "plain tail" and plain_head: "plain (Quest True separator)"
    by (simp_all add: tail_def separator_def d_def)
  have shape: "expr titleRegexp =
      Cat (Quest True separator) (Cat (Group 1 (Plus False (Cls False titleChars))) tail)"
    by (simp add: titleRegexp_def tail_def)
  from assms obtain t1 t2
    where t1: "t1 \<in> set (ms (Quest True separator) (n, s, []))"
      and t2: "t2 \<in> set (ms (Group 1 (Plus False (Cls False titleChars))) t1)"
      and t': "t' \<in> set (ms tail t2)"
    unfolding shape by (auto simp: ms_Cat)
  obtain n1 s1 c1 where t1_eq: "t1 = (n1, s1, c1)" by (cases t1)
  from plain_keeps_captures [OF plain_head t1] t1_eq have c1: "c1 = []" by simp
  from t2 t1_eq c1 obtain n2 s2 c2
    where run: "(n2, s2, c2) \<in> set (loop (ms (Cls False titleChars)) False (n1, s1, []))"
      and t2_eq: "t2 = (n2, s2, (1, take (n2 - n1) s1) # c2)"
    by (auto simp: ms_Group ms_Plus)
  from loop_class_consumes [OF run] obtain u
    where u: "s1 = u @ s2" "n2 = n1 + length u" "set u \<subseteq> set titleChars" "c2 = []"
    by blast
  from plain_keeps_captures [OF plain_tail t'] t2_eq u
  have "snd (snd t') = [(1, u)]" by simp
  with u(3) show ?thesis by blast
qed

lemma parseString_title: "set (parseString name titleRegexp) \<subseteq> set titleChars"
proof (cases "findFrom (expr titleRegexp) 0 name")
  case None
  then show ?thesis by (simp add: parseString_def findStringSubmatch_def)
next
  case (Some found)
  obtain w c where found: "found = (w, c)" by (cases found)
  with Some obtain n0 s0 n' s' where "(n', s', c) \<in> set (ms (expr titleRegexp) (n0, s0, []))"
    using findFrom_Some_outcome by blast
  from title_group [OF this] obtain u where "c = [(1, u)]" "set u \<subseteq> set titleChars"
    by auto
  with Some found show ?thesis
    by (simp add: parseString_def findStringSubmatch_def titleRegexp_def group_def)
qed

lemma title_of_chars:
  "c \<in> set (title_of name) \<Longrightarrow> c \<noteq> CHR ''_'' \<and> (isLetter c \<or> c = CHR 0x27 \<or> c = CHR '' '')"
proof -
  assume "c \<in> set (title_of name)"
  then obtain x where x: "x \<in> set (parseString name titleRegexp)"
    and c: "c = (if x = CHR ''_'' then CHR '' '' else x)"
    by (auto simp: title_of_def replaceAll_def)
  from x parseString_title have "x \<in> set titleChars" by blast
  then have "isLetter x \<or> x = CHR 0x27 \<or> x = CHR ''_'' \<or> x = CHR '' ''"
    by (auto simp: titleChars_def isLetter_def)
  with c show ?thesis by auto
qed

lemma parse_Title: "parse name = Inr p \<Longrightarrow> Title p = title_of name"
  by (auto simp: parse_def andThen_def split: sum.splits)

lemma a_b_title: "title_of ''a_b_c1.jpg'' = ''a b''"
  by (simp add: title_of_def parseString_def replaceAll_def matcher_eval titleRegexp_def)

lemma parse_a_b_c1:
  "parse ''a_b_c1.jpg'' = Inr \<lparr> Title = ''a b'', FileName = ''a_b_c1.jpg'', Volume = 0,
       PageNumber = 1, AbsolutePageNumber = undetermined, Chapter = 1 \<rparr>"
  by (simp add: parse_eval matcher_eval regexps_eval uint_eval)

text \<open>
  Claim C9. The title the parser computes for a file name holds no underscore, and each of
  its characters is an ASCII letter, an apostrophe or a space; the \<open>Title\<close> of every record
  \<open>parse\<close> returns is that title.
\<close>

theorem title_characters:
  "CHR ''_'' \<notin> set (title_of name)
   \<and> (\<forall>c\<in>set (title_of name). isLetter c \<or> c = CHR 0x27 \<or> c = CHR '' '')
   \<and> (\<forall>p. parse name = Inr p \<longrightarrow> Title p = title_of name)"
  using title_of_chars [of _ name] parse_Title [of name] by blast

theorem title_characters_witness:
  "CHR ''_'' \<notin> set (title_of ''a_b_c1.jpg'') \<and> title_of ''a_b_c1.jpg'' = ''a b''
   \<and> parse ''a_b_c1.jpg'' = Inr \<lparr> Title = ''a b'', FileName = ''a_b_c1.jpg'', Volume = 0,
        PageNumber = 1, AbsolutePageNumber = undetermined, Chapter = 1 \<rparr>"
  using title_characters [of "''a_b_c1.jpg''"] a_b_title parse_a_b_c1 by simp

section \<open>The absolute page number\<close>

lemma abs_later: "0 < n \<Longrightarrow> ms (expr absRegexp) (n, s, c) = []"
  by (simp add: absRegexp_def ms_Group ms_Cat ms_Bol)

lemma findFrom_abs_later: "0 < n \<Longrightarrow> findFrom (expr absRegexp) n s = None"
proof (induction s arbitrary: n rule: length_induct)
  case (1 s)
  show ?case
  proof (cases s)
    case Nil
    with 1 show ?thesis by (simp add: abs_later)
  next
    case (Cons c0 rest)
    have "length (drop (runeWidth c0 rest - 1) rest) < length s"
      using Cons by simp
    with 1 Cons show ?thesis by (simp add: abs_later)
  qed
qed

lemma abs_no_digit:
  "\<not> beginsWithDigit s \<Longrightarrow> ms (expr absRegexp) (0, s, c) = []"
  by (cases s)
     (simp_all add: absRegexp_def ms_Group ms_Cat ms_Bol ms_Plus d_def loop_class_Nil
        loop_class_Cons beginsWithDigit_def isDigit_def)

lemma findFrom_abs_no_digit:
  assumes "\<not> beginsWithDigit s"
  shows "findFrom (expr absRegexp) 0 s = None"
proof (cases s)
  case Nil
  with assms show ?thesis using abs_no_digit [of "[]" "[]"] by simp
next
  case (Cons c0 rest)
  have "0 < runeWidth c0 rest" using runeWidth_bounds [of c0 rest] by simp
  with assms Cons show ?thesis
    using abs_no_digit [of s "[]"] by (simp add: findFrom_abs_later)
qed

lemma parse_AbsolutePageNumber:
  "parse name = Inr p \<Longrightarrow> parseUintFromRegex name absRegexp undetermined = Inr (AbsolutePageNumber p)"
  by (auto simp: parse_def andThen_def split: sum.splits)

lemma x1_no_digit: "\<not> beginsWithDigit ''x1.jpg''"
  by (simp add: beginsWithDigit_def isDigit_def digits_def)

text \<open>
  Claim C8. For a file name that does not begin with a digit, the absolute-page extractor
  returns the sentinel \<open>^uint(0)\<close> (it does not panic), and so the \<open>AbsolutePageNumber\<close> of
  every record \<open>parse\<close> returns for it is the sentinel.
\<close>

theorem absolute_page_undetermined:
  assumes "\<not> beginsWithDigit name"
  shows "parseUintFromRegex name absRegexp undetermined = Inr undetermined
       \<and> (\<forall>p. parse name = Inr p \<longrightarrow> AbsolutePageNumber p = undetermined)"
proof -
  from assms have "parseUintFromRegex name absRegexp undetermined = Inr undetermined"
    by (simp add: parseUintFromRegex_def findStringSubmatch_def findFrom_abs_no_digit)
  then show ?thesis using parse_AbsolutePageNumber [of name] by auto
qed

lemma parse_x1:
  "parse ''x1.jpg'' = Inr \<lparr> Title = [], FileName = ''x1.jpg'', Volume = 0,
       PageNumber = undetermined, AbsolutePageNumber = undetermined, Chapter = 0 \<rparr>"
  by (simp add: parse_eval matcher_eval regexps_eval uint_eval)

theorem absolute_page_undetermined_witness:
  "\<not> beginsWithDigit ''x1.jpg''
   \<and> parseUintFromRegex ''x1.jpg'' absRegexp undetermined = Inr undetermined
   \<and> parse ''x1.jpg'' = Inr \<lparr> Title = [], FileName = ''x1.jpg'', Volume = 0,
        PageNumber = undetermined, AbsolutePageNumber = undetermined, Chapter = 0 \<rparr>"
  using absolute_page_undetermined [OF x1_no_digit] x1_no_digit parse_x1 by simp

section \<open>The page number\<close>

subsection \<open>A greedy run of an ASCII class\<close>

lemma upt_from_one: "[Suc 0..<Suc (Suc k)] = Suc 0 # map Suc [Suc 0..<Suc k]"
  by (simp add: upt_conv_Cons map_Suc_upt del: upt_Suc)

lemma greedy_class_run:
  assumes ascii: "\<forall>x\<in>set cs. byte x < 0x80"
  shows "loop (ms (Cls False cs)) True (n, s, c) =
           map (\<lambda>j. (n + j, drop j s, c)) (rev [1..<Suc (length (takeWhile (\<lambda>x. x \<in> set cs) s))])"
proof (induction s arbitrary: n)
  case Nil
  then show ?case by (simp add: loop_class_Nil)
next
  case (Cons c0 rest)
  show ?case
  proof (cases "c0 \<in> set cs")
    case True
    with ascii have "byte c0 < 0x80" by blast
    with True show ?thesis
      by (simp add: loop_class_Cons Cons.IH upt_from_one rev_map comp_def del: upt_Suc)
  next
    case False
    then show ?thesis by (simp add: loop_class_Cons)
  qed
qed

lemma concat_greedy:
  assumes "\<And>j. 1 \<le> j \<Longrightarrow> j < k \<Longrightarrow> F j = []"
  shows "concat (map F (rev [1..<Suc k])) = (if k = 0 then [] else F k)"
proof (cases "k = 0")
  case True
  then show ?thesis by simp
next
  case False
  have "concat (map F (rev [1..<k])) = []"
    using assms by (simp add: concat_eq_Nil_conv)
  with False show ?thesis by simp
qed

lemma isDigit_ascii: "isDigit x \<Longrightarrow> byte x < 0x80"
  by (auto simp: isDigit_def digits_def byte_def)

lemma isLetter_ascii: "isLetter x \<Longrightarrow> byte x < 0x80"
  by (auto simp: isLetter_def lower_def upper_def byte_def)

lemma ms_digits:
  "ms (Plus True d) (n, s, c) =
     map (\<lambda>j. (n + j, drop j s, c)) (rev [1..<Suc (length (takeWhile isDigit s))])"
proof -
  have "isDigit = (\<lambda>x. x \<in> set digits)" by (simp add: fun_eq_iff isDigit_def)
  moreover have "\<forall>x\<in>set digits. byte x < 0x80" using isDigit_ascii by (simp add: isDigit_def)
  ultimately show ?thesis by (simp add: ms_Plus d_def greedy_class_run)
qed

lemma ms_letters:
  "ms (Plus True letter) (n, s, c) =
     map (\<lambda>j. (n + j, drop j s, c)) (rev [1..<Suc (length (takeWhile isLetter s))])"
proof -
  have "isLetter = (\<lambda>x. x \<in> set (lower @ upper))" by (simp add: fun_eq_iff isLetter_def)
  moreover have "\<forall>x\<in>set (lower @ upper). byte x < 0x80"
    using isLetter_ascii by (simp add: isLetter_def)
  ultimately show ?thesis by (simp add: ms_Plus letter_def greedy_class_run)
qed

lemma within_run:
  assumes "j < length (takeWhile P s)"
  shows "drop j s = s ! j # drop (Suc j) s \<and> P (s ! j)"
proof -
  from assms have "j < length s"
    using length_takeWhile_le [of P s] by simp
  moreover from assms have "P (takeWhile P s ! j)"
    using nth_mem set_takeWhileD by metis
  ultimately show ?thesis using assms by (simp add: Cons_nth_drop_Suc takeWhile_nth)
qed

subsection \<open>The two alternatives of the pattern\<close>

lemma pnum_shape: "expr pnumRegexp = Alt markerForm suffixForm"
  by (simp add: pnumRegexp_def markerForm_def suffixForm_def numberTail_def dotTail_def
        extTail_def)

lemma ms_marker:
  "ms markerForm (n, s, c) =
     (case s of [] \<Rightarrow> []
      | c0 # rest \<Rightarrow>
          if c0 = CHR ''p''
          then map (\<lambda>j. (Suc n + j, drop j rest, (1, take j rest) # c))
                   (rev [1..<Suc (length (takeWhile isDigit rest))])
          else [])"
  by (cases s)
     (simp_all add: markerForm_def ms_Cat ms_Cls_positive ms_Group ms_digits byte_def comp_def
        del: upt_Suc)

lemma marker_none: "markerAt s = None \<Longrightarrow> ms markerForm (n, s, c) = []"
  by (cases s) (auto simp: ms_marker markerAt_def split: if_splits)

lemma marker_some:
  assumes "markerAt s = Some ds"
  shows "\<exists>n' s' ts. ms markerForm (n, s, c) = (n', s', (1, ds) # c) # ts"
proof -
  from assms obtain rest where s: "s = CHR ''p'' # rest"
    and ds: "ds = takeWhile isDigit rest" and ne: "takeWhile isDigit rest \<noteq> []"
    by (cases s) (auto simp: markerAt_def split: if_splits)
  define k where "k = length (takeWhile isDigit rest)"
  from ne have "k \<noteq> 0" by (simp add: k_def)
  then have order: "rev [Suc 0..<Suc k] = k # rev [Suc 0..<k]" by simp
  have "take k rest = ds" by (simp add: k_def ds takeWhile_eq_take [symmetric])
  then show ?thesis
    unfolding s by (simp add: ms_marker k_def [symmetric] order del: upt_Suc)
qed

lemma ms_extTail:
  "ms extTail (n, s, c) =
     (if s \<noteq> [] \<and> list_all isLetter s then [(n + length s, [], c)] else [])"
proof -
  define k where "k = length (takeWhile isLetter s)"
  define F where "F j = ms Eol (n + j, drop j s, c)" for j
  have k_le: "k \<le> length s" by (simp add: k_def length_takeWhile_le)
  have F_eq: "F = (\<lambda>j. ms Eol (n + j, drop j s, c))" by (simp add: fun_eq_iff F_def)
  have whole: "ms extTail (n, s, c) = concat (map F (rev [1..<Suc k]))"
    by (simp add: extTail_def ms_Cat ms_letters k_def [symmetric] F_eq comp_def del: upt_Suc)
  have "F j = []" if "j < k" for j
    using that k_le by (simp add: F_def ms_Eol)
  then have run: "concat (map F (rev [1..<Suc k])) = (if k = 0 then [] else F k)"
    by (intro concat_greedy) simp
  have all: "k = length s \<longleftrightarrow> list_all isLetter s"
  proof
    assume "k = length s"
    then have "takeWhile isLetter s = s"
      using takeWhile_eq_take [of isLetter s] by (simp add: k_def)
    then show "list_all isLetter s" by (simp add: takeWhile_eq_all_conv list_all_iff)
  next
    assume "list_all isLetter s"
    then have "takeWhile isLetter s = s" by (simp add: takeWhile_eq_all_conv list_all_iff)
    then show "k = length s" unfolding k_def by (rule arg_cong)
  qed
  show ?thesis
  proof (cases "s \<noteq> [] \<and> list_all isLetter s")
    case True
    with all have "k = length s" "k \<noteq> 0" by auto
    with True whole run show ?thesis by (simp add: F_def ms_Eol)
  next
    case False
    then have "k = 0 \<or> k < length s" using all k_le by auto
    with False whole run show ?thesis by (auto simp: F_def ms_Eol)
  qed
qed

lemma ms_dotTail:
  "ms dotTail (n, s, c) =
     (case s of [] \<Rightarrow> []
      | c0 # ext \<Rightarrow>
          if c0 = CHR ''.'' \<and> ext \<noteq> [] \<and> list_all isLetter ext
          then [(n + length s, [], c)] else [])"
  by (cases s) (simp_all add: dotTail_def ms_Cat ms_Cls_positive ms_extTail byte_def)

lemma ms_numberTail:
  "ms numberTail (n, s, c) =
     (case numberDotExt s of None \<Rightarrow> [] | Some ds \<Rightarrow> [(n + length s, [], (2, ds) # c)])"
proof -
  define k where "k = length (takeWhile isDigit s)"
  define F where "F j = ms dotTail (n + j, drop j s, (2, take j s) # c)" for j
  have "F j = []" if "j < k" for j
  proof -
    from that have "drop j s = s ! j # drop (Suc j) s" and "isDigit (s ! j)"
      using within_run [of j isDigit s] by (simp_all add: k_def)
    moreover from this(2) have "s ! j \<noteq> CHR ''.''"
      by (auto simp: isDigit_def digits_def)
    ultimately show ?thesis by (simp add: F_def ms_dotTail)
  qed
  then have run: "concat (map F (rev [1..<Suc k])) = (if k = 0 then [] else F k)"
    by (intro concat_greedy) simp
  have parts: "take k s = takeWhile isDigit s" "drop k s = dropWhile isDigit s"
    by (simp_all add: k_def takeWhile_eq_take [symmetric] dropWhile_eq_drop)
  have len: "k + length (dropWhile isDigit s) = length s"
    unfolding k_def by (metis length_append takeWhile_dropWhile_id)
  have F_eq: "F = (\<lambda>j. ms dotTail (n + j, drop j s, (2, take j s) # c))"
    by (simp add: fun_eq_iff F_def)
  have whole: "ms numberTail (n, s, c) = concat (map F (rev [1..<Suc k]))"
    by (simp add: numberTail_def ms_Cat ms_Group ms_digits k_def [symmetric] F_eq comp_def
          del: upt_Suc)
  show ?thesis
  proof (cases "k = 0")
    case True
    then have "takeWhile isDigit s = []" by (simp add: k_def)
    with True whole run show ?thesis by (simp add: numberDotExt_def)
  next
    case False
    then have ne: "takeWhile isDigit s \<noteq> []" by (auto simp: k_def)
    from False whole run have "ms numberTail (n, s, c) = F k" by simp
    also have "\<dots> = (case numberDotExt s of None \<Rightarrow> []
                      | Some ds \<Rightarrow> [(n + length s, [], (2, ds) # c)])"
    proof (cases "dropWhile isDigit s")
      case Nil
      have "F k = []" unfolding F_def ms_dotTail parts Nil by simp
      moreover have "numberDotExt s = None"
        unfolding numberDotExt_def Let_def Nil using ne by simp
      ultimately show ?thesis by simp
    next
      case (Cons c0 ext)
      with len have "n + k + Suc (length ext) = n + length s" by simp
      with ne Cons show ?thesis
        by (simp add: F_def ms_dotTail parts numberDotExt_def)
    qed
    finally show ?thesis .
  qed
qed

lemma ms_notDotDigit:
  "ms notDotDigit (n, s, c) =
     (case plainRune s of None \<Rightarrow> [] | Some s1 \<Rightarrow> [(n + (length s - length s1), s1, c)])"
proof (cases s)
  case Nil
  then show ?thesis by (simp add: notDotDigit_def ms_Cls plainRune_def)
next
  case (Cons c0 rest)
  have dot: "byte (CHR ''.'') < 0x80" by (simp add: byte_def)
  have width: "snd (decodeRune c0 rest) \<le> Suc (length rest)"
    using runeWidth_bounds [of c0 rest] by (simp add: decodeRune_def)
  show ?thesis
  proof (cases "byte c0 < 0x80")
    case True
    with Cons show ?thesis
      by (simp add: notDotDigit_def ms_Cls plainRune_def decodeRune_def inCls_def isDigit_def)
  next
    case False
    with dot isDigit_ascii [of c0] have "c0 \<noteq> CHR ''.''" "\<not> isDigit c0" by auto
    with Cons False width show ?thesis
      by (simp add: notDotDigit_def ms_Cls plainRune_def decodeRune_def inCls_def)
  qed
qed

lemma plainRune_shorter: "plainRune s = Some s1 \<Longrightarrow> length s1 \<le> length s"
  by (cases s) (auto simp: plainRune_def split: if_splits)

lemma ms_suffix:
  "ms suffixForm (n, s, c) =
     (case suffixAt s of None \<Rightarrow> [] | Some ds \<Rightarrow> [(n + length s, [], (2, ds) # c)])"
proof (cases "plainRune s")
  case None
  then show ?thesis by (simp add: suffixForm_def ms_Cat ms_notDotDigit suffixAt_def)
next
  case (Some s1)
  note first = this
  show ?thesis
  proof (cases "plainRune s1")
    case None
    with first show ?thesis by (simp add: suffixForm_def ms_Cat ms_notDotDigit suffixAt_def)
  next
    case (Some s2)
    from first Some have "length s2 \<le> length s1" "length s1 \<le> length s"
      by (simp_all add: plainRune_shorter)
    then have "n + (length s - length s1) + (length s1 - length s2) + length s2 = n + length s"
      by simp
    with first Some show ?thesis
      by (simp add: suffixForm_def ms_Cat ms_notDotDigit suffixAt_def ms_numberTail
            split: option.split)
  qed
qed

subsection \<open>The first place decides\<close>

lemma pnum_first_none: "formAt s = None \<Longrightarrow> ms (expr pnumRegexp) (n, s, []) = []"
  by (auto simp: formAt_def pnum_shape ms_Alt marker_none ms_suffix split: option.splits)

lemma pnum_first_some:
  assumes "formAt s = Some ds"
  shows "\<exists>n' s' c ts. ms (expr pnumRegexp) (n, s, []) = (n', s', c) # ts
           \<and> (c = [(1, ds)] \<or> c = [(2, ds)])"
proof (cases "markerAt s")
  case None
  with assms have "suffixAt s = Some ds" by (simp add: formAt_def)
  with None show ?thesis by (simp add: pnum_shape ms_Alt marker_none ms_suffix)
next
  case (Some found)
  with assms have "markerAt s = Some ds" by (simp add: formAt_def)
  from marker_some [OF this, of n "[]"] show ?thesis
    by (auto simp: pnum_shape ms_Alt)
qed

lemma form_digits: "formAt s = Some ds \<Longrightarrow> ds \<noteq> [] \<and> list_all isDigit ds"
  by (auto simp: formAt_def markerAt_def suffixAt_def numberDotExt_def Let_def list_all_iff
        split: option.splits list.splits if_splits dest: set_takeWhileD)

lemma candidates_digits: "ds \<in> set (candidates s) \<Longrightarrow> ds \<noteq> [] \<and> list_all isDigit ds"
proof (induction s rule: candidates.induct)
  case 1
  then show ?case by simp
next
  case (2 c rest)
  then show ?case
    by (cases "formAt (c # rest)") (auto dest: form_digits)
qed

lemma submatch_loop:
  assumes "ds \<noteq> []" and "c = [(1, ds)] \<or> c = [(2, ds)]"
  shows "pnumLoop 0 (whole # map (group c) [1..<3]) undetermined = chosen ds"
proof -
  have "[1..<3] = [1, 2::nat]" by (simp add: upt_conv_Cons)
  with assms show ?thesis
    by (auto simp: group_def chosen_def split: option.splits)
qed

lemma firstWins_Cons:
  "firstWins (c0 # rest) =
     (case formAt (c0 # rest) of
        None \<Rightarrow> firstWins (drop (runeWidth c0 rest - 1) rest)
      | Some ds \<Rightarrow> chosen ds)"
  by (simp add: firstWins_def split: option.splits)

lemma search_firstWins:
  "pnumLoop 0 (case findFrom (expr pnumRegexp) n s of
                 None \<Rightarrow> []
               | Some (whole, c) \<Rightarrow> whole # map (group c) [1..<3]) undetermined
   = firstWins s"
proof (induction s arbitrary: n rule: candidates.induct)
  case 1
  have "formAt [] = None" by (simp add: formAt_def markerAt_def suffixAt_def plainRune_def)
  then show ?case by (simp add: pnum_first_none firstWins_def)
next
  case (2 c0 rest)
  show ?case
  proof (cases "formAt (c0 # rest)")
    case None
    then show ?thesis
      using "2.IH" [of "n + runeWidth c0 rest"] by (simp add: pnum_first_none firstWins_Cons)
  next
    case (Some ds)
    from pnum_first_some [OF Some, of n] obtain n' s' c ts
      where first: "ms (expr pnumRegexp) (n, c0 # rest, []) = (n', s', c) # ts"
        and c: "c = [(1, ds)] \<or> c = [(2, ds)]"
      by blast
    from form_digits [OF Some] have "ds \<noteq> []" by simp
    from submatch_loop [OF this c] first Some show ?thesis
      by (simp add: firstWins_Cons)
  qed
qed

lemma pnum_of_firstWins: "pnum_of name = firstWins name"
proof -
  have "length (subexpNames pnumRegexp) = 3" by (simp add: pnumRegexp_def)
  then have "findStringSubmatch pnumRegexp name =
      (case findFrom (expr pnumRegexp) 0 name of
         None \<Rightarrow> []
       | Some (whole, c) \<Rightarrow> whole # map (group c) [1..<3])"
    by (simp add: findStringSubmatch_def split: option.split)
  then show ?thesis unfolding pnum_of_def by (simp only: search_firstWins)
qed

lemma parse_PageNumber: "parse name = Inr p \<Longrightarrow> pnum_of name = Inr (PageNumber p)"
  by (auto simp: parse_def andThen_def split: sum.splits)

lemmas forms_eval =
  formAt_def markerAt_def suffixAt_def plainRune_def numberDotExt_def isDigit_def isLetter_def
  digits_def lower_def upper_def decodeRune_def runeWidth_def inRange_def byte_def Let_def

lemma two_markers_candidates: "candidates ''p1_p2.jpg'' = [''1'', ''2'', ''2'']"
  by (simp add: forms_eval)

lemma marker_then_suffix_candidates: "candidates ''x_p07_v2.jpg'' = [''07'', ''2'']"
  by (simp add: forms_eval)

lemma two_markers_pnum:
  "findStringSubmatch pnumRegexp ''p1_p2.jpg'' = [''p1'', ''1'', '''']"
  by (simp add: matcher_eval pnumRegexp_def)

text \<open>
  Claim C1, as amended. The page number is read at the first place, scanning the file
  name from the left, where one of the two forms holds, the marker form \<open>p\<close> plus digits
  being tried before the suffix form at the same place: with no such place it is
  \<open>^uint(0)\<close>, and otherwise it is the value of the digits found there, when that value
  is below \<open>2^64\<close>. The \<open>PageNumber\<close> of every record \<open>parse\<close> returns is this number.
\<close>

theorem page_number_first_place:
  "(candidates name = [] \<longrightarrow> pnum_of name = Inr undetermined)
   \<and> (\<forall>ds more. candidates name = ds # more \<and> decimalValue ds < 2 ^ 64
         \<longrightarrow> pnum_of name = Inr (of_nat (decimalValue ds)))
   \<and> (\<forall>p. parse name = Inr p \<longrightarrow> pnum_of name = Inr (PageNumber p))"
proof (intro conjI allI impI)
  assume "candidates name = []"
  then show "pnum_of name = Inr undetermined"
    by (simp add: pnum_of_firstWins firstWins_def)
next
  fix ds more
  assume found: "candidates name = ds # more \<and> decimalValue ds < 2 ^ 64"
  then have "ds \<in> set (candidates name)" by simp
  from candidates_digits [OF this] found
  have "chosen ds = Inr (of_nat (decimalValue ds))"
    by (simp add: chosen_def parseUint_def)
  with found show "pnum_of name = Inr (of_nat (decimalValue ds))"
    by (simp add: pnum_of_firstWins firstWins_def)
next
  fix p
  assume "parse name = Inr p"
  then show "pnum_of name = Inr (PageNumber p)" by (rule parse_PageNumber)
qed

lemma no_place_candidates: "candidates ''cover.jpg'' = []"
  by (simp add: forms_eval)

lemma parse_x_p07_v2:
  "parse ''x_p07_v2.jpg'' = Inr \<lparr> Title = ''x'', FileName = ''x_p07_v2.jpg'', Volume = 2,
       PageNumber = 7, AbsolutePageNumber = undetermined, Chapter = 0 \<rparr>"
  by (simp add: parse_eval matcher_eval regexps_eval uint_eval)

theorem page_number_first_place_witness:
  "pnum_of ''cover.jpg'' = Inr undetermined
   \<and> candidates ''x_p07_v2.jpg'' = [''07'', ''2''] \<and> pnum_of ''x_p07_v2.jpg'' = Inr 7
   \<and> parse ''x_p07_v2.jpg'' = Inr \<lparr> Title = ''x'', FileName = ''x_p07_v2.jpg'', Volume = 2,
        PageNumber = 7, AbsolutePageNumber = undetermined, Chapter = 0 \<rparr>"
proof -
  have "decimalValue ''07'' = 7" by (simp add: decimalValue_def digitVal_def byte_def)
  with page_number_first_place [of "''x_p07_v2.jpg''"] page_number_first_place [of "''cover.jpg''"]
    marker_then_suffix_candidates no_place_candidates parse_x_p07_v2
  show ?thesis by simp
qed

lemma two_markers_parse:
  "parse ''p1_p2.jpg'' = Inr \<lparr> Title = '' '', FileName = ''p1_p2.jpg'', Volume = 0,
       PageNumber = 1, AbsolutePageNumber = undetermined, Chapter = 0 \<rparr>"
  by (simp add: parse_eval matcher_eval regexps_eval uint_eval)

text \<open>
  Claim C1 as it is written lets the last place found in the scan decide. The file name
  \<open>p1_p2.jpg\<close> has three places, with the digits 1, 2 and 2: the last one gives page 2,
  the parser gives page 1.
\<close>

theorem last_place_does_not_win:
  "parse ''p1_p2.jpg'' = Inr \<lparr> Title = '' '', FileName = ''p1_p2.jpg'', Volume = 0,
       PageNumber = 1, AbsolutePageNumber = undetermined, Chapter = 0 \<rparr>
   \<and> pnum_of ''p1_p2.jpg'' = Inr 1
   \<and> candidates ''p1_p2.jpg'' = [''1'', ''2'', ''2'']
   \<and> lastWins ''p1_p2.jpg'' = Inr 2"
proof (intro conjI)
  show "parse ''p1_p2.jpg'' = Inr \<lparr> Title = '' '', FileName = ''p1_p2.jpg'', Volume = 0,
       PageNumber = 1, AbsolutePageNumber = undetermined, Chapter = 0 \<rparr>"
    by (rule two_markers_parse)
  show "pnum_of ''p1_p2.jpg'' = Inr 1"
    unfolding pnum_of_def two_markers_pnum by (simp add: uint_eval)
  show "candidates ''p1_p2.jpg'' = [''1'', ''2'', ''2'']"
    by (rule two_markers_candidates)
  show "lastWins ''p1_p2.jpg'' = Inr 2"
    unfolding lastWins_def two_markers_candidates by (simp add: chosen_def uint_eval)
qed

section \<open>When the parser panics\<close>

lemma digits_group:
  assumes "plain a" and "t' \<in> set (ms (Cat a (Group 1 (Plus True d))) (n, s, []))"
  shows "\<exists>u. snd (snd t') = [(1, u)] \<and> u \<noteq> [] \<and> list_all isDigit u"
proof -
  from assms(2) obtain t1 where t1: "t1 \<in> set (ms a (n, s, []))"
    and t': "t' \<in> set (ms (Group 1 (Plus True d)) t1)"
    by (auto simp: ms_Cat)
  obtain n1 s1 c1 where t1_eq: "t1 = (n1, s1, c1)" by (cases t1)
  from plain_keeps_captures [OF assms(1) t1] t1_eq have "c1 = []" by simp
  with t' t1_eq obtain n2 s2 c2
    where run: "(n2, s2, c2) \<in> set (loop (ms (Cls False digits)) True (n1, s1, []))"
      and t'_eq: "t' = (n2, s2, (1, take (n2 - n1) s1) # c2)"
    by (auto simp: ms_Group ms_Plus d_def)
  from loop_class_consumes [OF run] obtain u
    where "s1 = u @ s2" "n2 = n1 + length u" "u \<noteq> []" "set u \<subseteq> set digits" "c2 = []"
    by blast
  with t'_eq show ?thesis
    by (intro exI [of _ u]) (auto simp: list_all_iff isDigit_def)
qed

lemma marked_uint_group:
  assumes "plain a" and "plain q"
    and "t' \<in> set (ms (cats [a, q, Group 1 (Plus True d)]) (n, s, []))"
  shows "\<exists>u. snd (snd t') = [(1, u)] \<and> u \<noteq> [] \<and> list_all isDigit u"
proof -
  from assms(3) obtain t1 where t1: "t1 \<in> set (ms a (n, s, []))"
    and t': "t' \<in> set (ms (Cat q (Group 1 (Plus True d))) t1)"
    by (auto simp: ms_Cat)
  obtain n1 s1 c1 where t1_eq: "t1 = (n1, s1, c1)" by (cases t1)
  from plain_keeps_captures [OF assms(1) t1] t1_eq have "c1 = []" by simp
  with t' t1_eq show ?thesis using digits_group [OF assms(2)] by simp
qed

lemma vol_group:
  "t' \<in> set (ms (expr volRegexp) (n, s, [])) \<Longrightarrow>
     \<exists>u. snd (snd t') = [(1, u)] \<and> u \<noteq> [] \<and> list_all isDigit u"
  by (rule marked_uint_group [of "alts [lit ''Vol'', lit ''Volume'', lit ''v'']"
        "Quest True (Cat (lit ''.'') sp)"])
     (simp_all add: volRegexp_def sp_def)

lemma chap_group:
  "t' \<in> set (ms (expr chapRegexp) (n, s, [])) \<Longrightarrow>
     \<exists>u. snd (snd t') = [(1, u)] \<and> u \<noteq> [] \<and> list_all isDigit u"
  by (rule marked_uint_group [of "alts [lit ''Ch'', lit ''Chapter'', lit ''c'']"
        "Quest True (Cat (lit ''.'') sp)"])
     (simp_all add: chapRegexp_def sp_def)

lemma abs_group:
  assumes "t' \<in> set (ms (expr absRegexp) (n, s, []))"
  shows "\<exists>u. snd (snd t') = [(1, u)] \<and> u \<noteq> [] \<and> list_all isDigit u"
proof -
  from assms obtain n2 s2 c2
    where run: "(n2, s2, c2) \<in> set (loop (ms (Cls False digits)) True (n, s, []))"
      and t'_eq: "t' = (n2, s2, (1, take (n2 - n) s) # c2)"
    by (auto simp: absRegexp_def ms_Group ms_Cat ms_Bol ms_Plus d_def split: if_splits)
  from loop_class_consumes [OF run] obtain u
    where "s = u @ s2" "n2 = n + length u" "u \<noteq> []" "set u \<subseteq> set digits" "c2 = []"
    by blast
  with t'_eq show ?thesis
    by (intro exI [of _ u]) (auto simp: list_all_iff isDigit_def)
qed

lemma uint_panic_cause:
  assumes groups: "\<And>t' n s. t' \<in> set (ms (expr rx) (n, s, [])) \<Longrightarrow>
                     \<exists>u. snd (snd t') = [(1, u)] \<and> u \<noteq> [] \<and> list_all isDigit u"
    and names: "subexpNames rx = ['''', ''uint'']"
    and panic: "parseUintFromRegex name rx defaultValue = Inl e"
  shows "e = UintUnparsable \<and> (\<exists>ds. ds \<noteq> [] \<and> list_all isDigit ds \<and> 2 ^ 64 \<le> decimalValue ds)"
proof (cases "findFrom (expr rx) 0 name")
  case None
  with panic show ?thesis by (simp add: parseUintFromRegex_def findStringSubmatch_def)
next
  case (Some found)
  obtain w c where found: "found = (w, c)" by (cases found)
  with Some obtain n0 s0 n' s' where "(n', s', c) \<in> set (ms (expr rx) (n0, s0, []))"
    using findFrom_Some_outcome by blast
  from groups [OF this] obtain u where u: "c = [(1, u)]" "u \<noteq> []" "list_all isDigit u"
    by auto
  with Some found names have "findStringSubmatch rx name = [w, u]"
    by (simp add: findStringSubmatch_def group_def)
  with panic names u show ?thesis
    by (auto simp: parseUintFromRegex_def parseUint_def split: if_splits)
qed

lemma pnum_panic_cause:
  assumes "pnum_of name = Inl e"
  shows "e = PageNumberUnparsable
       \<and> (\<exists>ds. ds \<noteq> [] \<and> list_all isDigit ds \<and> 2 ^ 64 \<le> decimalValue ds)"
proof (cases "candidates name")
  case Nil
  with assms show ?thesis by (simp add: pnum_of_firstWins firstWins_def)
next
  case (Cons ds more)
  then have "ds \<in> set (candidates name)" by simp
  from candidates_digits [OF this] assms Cons show ?thesis
    by (auto simp: pnum_of_firstWins firstWins_def chosen_def parseUint_def split: if_splits)
qed

lemma parse_panic_cause:
  assumes "parse name = Inl e"
  shows "(e = UintUnparsable \<or> e = PageNumberUnparsable)
       \<and> (\<exists>ds. ds \<noteq> [] \<and> list_all isDigit ds \<and> 2 ^ 64 \<le> decimalValue ds)"
proof -
  from assms consider
      "parseUintFromRegex name volRegexp 0 = Inl e"
    | "parseUintFromRegex name chapRegexp 0 = Inl e"
    | "parseUintFromRegex name absRegexp undetermined = Inl e"
    | "pnum_of name = Inl e"
    by (auto simp: parse_def andThen_def split: sum.splits)
  then show ?thesis
  proof cases
    case 1
    from uint_panic_cause [OF vol_group _ this] show ?thesis by simp
  next
    case 2
    from uint_panic_cause [OF chap_group _ this] show ?thesis by simp
  next
    case 3
    from uint_panic_cause [OF abs_group _ this] show ?thesis by simp
  next
    case 4
    from pnum_panic_cause [OF this] show ?thesis by simp
  qed
qed

lemma Parse_when_parse_returns:
  "parse name = Inr p \<Longrightarrow>
     Parse name = Inr (p, if Title p = [] then Some TitleNotFound else None)"
  by (simp add: Parse_def)

lemma Parse_panics_iff: "Parse name = Inl e \<longleftrightarrow> parse name = Inl e"
  by (auto simp: Parse_def split: sum.splits if_splits)

end
